theory Spec2Isabelle
  imports Main "HOL-Library.AList" "HOL-Library.Sublist"
begin

section \<open>Python values used by the automaton engine\<close>

text \<open>
  States are Python ints (\<open>State = int\<close> in \<open>strings/dfa.py\<close>), so they are modelled as
  \<open>int\<close>: nothing in the source keeps a caller from passing a negative state.  Every
  exception the modelled code can raise is a constructor of \<open>error\<close>; the constructors up
  to \<open>InvalidTransitionType\<close> are the \<open>ValueError\<close>s of the source, told apart by the place
  that raises them.
\<close>

type_synonym State = int

datatype TransitionType = SUCCESS | FAILURE

datatype error =
    DuplicateInitialState
  | NoInitialState
  | NoState
  | InvalidStateReference State
  | InvalidSymbol char
  | DuplicateTransition State char
  | EmptyPattern
  | EmptyPatternSet
  | AutomatonInvariantViolation
  | InvalidTransition State char
  | InvalidTransitionType string
  | KeyError
  | IndexError
  | AttributeError
  | UnboundLocalError

text \<open>Truthiness of an \<open>int | None\<close> value: \<open>None\<close> and \<open>0\<close> are falsy.\<close>

definition truthy :: "int option \<Rightarrow> bool" where
  "truthy x = (case x of None \<Rightarrow> False | Some v \<Rightarrow> v \<noteq> 0)"

text \<open>The expression \<open>x or 0\<close> for \<open>x : int | None\<close>.\<close>

definition or0 :: "int option \<Rightarrow> int" where
  "or0 x = (case x of None \<Rightarrow> 0 | Some v \<Rightarrow> v)"

text \<open>
  List subscription \<open>xs[i]\<close> and assignment \<open>xs[i] = v\<close>.  \<open>py_position\<close> is the place in
  a list of the given length that the index \<open>i\<close> denotes: a negative index counts from the
  end, and an index that denotes no place raises \<open>IndexError\<close>.
\<close>

definition py_position :: "nat \<Rightarrow> int \<Rightarrow> nat option" where
  "py_position len i =
     (if 0 \<le> i \<and> i < int len then Some (nat i)
      else if i < 0 \<and> - int len \<le> i then Some (nat (int len + i))
      else None)"

definition py_index :: "'a list \<Rightarrow> int \<Rightarrow> error + 'a" where
  "py_index xs i =
     (case py_position (length xs) i of
        None \<Rightarrow> Inl IndexError
      | Some k \<Rightarrow> Inr (xs ! k))"

definition py_setitem :: "'a list \<Rightarrow> int \<Rightarrow> 'a \<Rightarrow> error + 'a list" where
  "py_setitem xs i v =
     (case py_position (length xs) i of
        None \<Rightarrow> Inl IndexError
      | Some k \<Rightarrow> Inr (xs[k := v]))"

text \<open>
  A dict is an association list (see below).  The three dict operations of
  \<open>DFA.transition\<close>: the membership test \<open>k in m\<close>, the subscript \<open>m[k]\<close>, which raises
  \<open>KeyError\<close> for a key that is not in the dict, and \<open>m.get(k)\<close>, which gives \<open>None\<close> for
  such a key.
\<close>

definition py_contains :: "('k \<times> 'v) list \<Rightarrow> 'k \<Rightarrow> bool" where
  "py_contains m k = (k \<in> fst ` set m)"

definition py_getitem :: "('k \<times> 'v) list \<Rightarrow> 'k \<Rightarrow> error + 'v" where
  "py_getitem m k = (case map_of m k of None \<Rightarrow> Inl KeyError | Some v \<Rightarrow> Inr v)"

definition py_get :: "('k \<times> 'v) list \<Rightarrow> 'k \<Rightarrow> 'v option" where
  "py_get m k = map_of m k"

section \<open>The automaton (\<open>strings/dfa.py\<close>)\<close>

text \<open>
  The fields of class \<open>DFA\<close>.  A Python dict keeps insertion order, so a dict is an
  association list read with \<open>map_of\<close> and written with \<open>AList.update\<close> (an existing key
  keeps its place, a new key goes last).  The two sets are HOL sets; where the builders
  iterate over the alphabet set, its iteration order is an explicit list argument.
\<close>

record DFA =
  states :: "int option"
  alphabets :: "char set"
  transitions :: "(State \<times> (char \<times> State) list) list"
  transition_types :: "(State \<times> (char \<times> TransitionType) list) list"
  initial_state :: "State option"
  accepting_states :: "State set"

definition DFA_init :: "char set \<Rightarrow> DFA" where
  "DFA_init alphabet_set =
     \<lparr> states = None, alphabets = alphabet_set, transitions = [], transition_types = [],
       initial_state = None, accepting_states = {} \<rparr>"

text \<open>
  \<open>add_state\<close> assigns \<open>self.states\<close> before it tests \<open>if self.initial_state:\<close>, so the
  automaton after the call is returned next to the result also when the call raises.
\<close>

definition add_state :: "DFA \<Rightarrow> bool \<Rightarrow> bool \<Rightarrow> (error + State) \<times> DFA" where
  "add_state d is_accepting is_initial =
     (let n = (case states d of None \<Rightarrow> 0 | Some k \<Rightarrow> k + 1);
          d1 = d\<lparr>states := Some n\<rparr>
      in if is_initial \<and> truthy (initial_state d1) then (Inl DuplicateInitialState, d1)
         else
           let d2 = (if is_initial then d1\<lparr>initial_state := Some n\<rparr> else d1);
               d3 = (if is_accepting
                     then d2\<lparr>accepting_states := insert n (accepting_states d2)\<rparr> else d2)
           in (Inr n, d3))"

text \<open>
  \<open>DFA_transition\<close> is the body of \<open>DFA.transition\<close>, statement by statement, with the dict
  operations it performs; the result is the exception raised or the value returned.
  \<open>transition\<close> is the same query written as one lookup, the form in which the other
  operations of this theory use it.  That the two agree, and so that the subscript in
  the body never raises, is proved in the last section.
\<close>

definition DFA_transition :: "DFA \<Rightarrow> State \<Rightarrow> char \<Rightarrow> error + State option" where
  "DFA_transition d current_state symbol =
     (if \<not> py_contains (transitions d) current_state then Inr None
      else
        (case py_getitem (transitions d) current_state of
           Inl e \<Rightarrow> Inl e
         | Inr row \<Rightarrow> Inr (py_get row symbol)))"

definition transition :: "DFA \<Rightarrow> State \<Rightarrow> char \<Rightarrow> State option" where
  "transition d current_state symbol =
     (case map_of (transitions d) current_state of
        None \<Rightarrow> None
      | Some row \<Rightarrow> map_of row symbol)"

definition has_transition :: "DFA \<Rightarrow> State \<Rightarrow> char \<Rightarrow> bool" where
  "has_transition d current_state symbol = (transition d current_state symbol \<noteq> None)"

definition get_transition_type :: "DFA \<Rightarrow> State \<Rightarrow> char \<Rightarrow> TransitionType option" where
  "get_transition_type d from_state symbol =
     (case map_of (transition_types d) from_state of
        None \<Rightarrow> None
      | Some row \<Rightarrow> map_of row symbol)"

text \<open>
  \<open>add_transition\<close> returns the raised error, if any, and the automaton after the call.
  The four checks and the duplicate test raise before anything is written.  The last
  line of the source subscripts \<open>self.transition_types[from_state]\<close>, which raises
  \<open>KeyError\<close> after \<open>self.transitions\<close> has been written when the two dicts do not have
  the same keys (possible only for an automaton read by \<open>from_dict\<close>).
\<close>

definition add_transition ::
  "DFA \<Rightarrow> State \<Rightarrow> char \<Rightarrow> State \<Rightarrow> TransitionType \<Rightarrow> error option \<times> DFA" where
  "add_transition d from_state symbol to_state transition_type =
     (case states d of
        None \<Rightarrow> (Some NoState, d)
      | Some n \<Rightarrow>
          if from_state < 0 \<or> from_state > n then (Some (InvalidStateReference from_state), d)
          else if to_state < 0 \<or> to_state > n then (Some (InvalidStateReference to_state), d)
          else if symbol \<notin> alphabets d then (Some (InvalidSymbol symbol), d)
          else
            (case map_of (transitions d) from_state of
               None \<Rightarrow>
                 (None,
                  d\<lparr>transitions := AList.update from_state [(symbol, to_state)] (transitions d),
                    transition_types :=
                      AList.update from_state [(symbol, transition_type)] (transition_types d)\<rparr>)
             | Some row \<Rightarrow>
                 if map_of row symbol \<noteq> None
                 then (Some (DuplicateTransition from_state symbol), d)
                 else
                   let d1 = d\<lparr>transitions :=
                          AList.update from_state (AList.update symbol to_state row)
                            (transitions d)\<rparr>
                   in (case map_of (transition_types d) from_state of
                         None \<Rightarrow> (Some KeyError, d1)
                       | Some trow \<Rightarrow>
                           (None,
                            d1\<lparr>transition_types :=
                                AList.update from_state
                                  (AList.update symbol transition_type trow)
                                  (transition_types d)\<rparr>))))"

definition add_accepting :: "DFA \<Rightarrow> State \<Rightarrow> error + DFA" where
  "add_accepting d s =
     (if \<not> truthy (states d) then Inl NoState
      else if s < 0 \<or> s > the (states d) then Inl (InvalidStateReference s)
      else Inr (d\<lparr>accepting_states := insert s (accepting_states d)\<rparr>))"

definition set_accepting :: "DFA \<Rightarrow> State \<Rightarrow> bool \<Rightarrow> error + DFA" where
  "set_accepting d s accepting =
     (if accepting then Inr (d\<lparr>accepting_states := insert s (accepting_states d)\<rparr>)
      else if s \<in> accepting_states d
      then Inr (d\<lparr>accepting_states := accepting_states d - {s}\<rparr>)
      else Inl KeyError)"

definition is_accepting_state :: "DFA \<Rightarrow> State \<Rightarrow> error + bool" where
  "is_accepting_state d s =
     (case states d of
        None \<Rightarrow> Inl (InvalidStateReference s)
      | Some n \<Rightarrow>
          if s < 0 \<or> s > n then Inl (InvalidStateReference s)
          else Inr (s \<in> accepting_states d))"

definition n_states :: "DFA \<Rightarrow> int" where
  "n_states d = (case states d of None \<Rightarrow> 0 | Some n \<Rightarrow> n + 1)"

subsection \<open>Breadth-first traversal\<close>

type_synonym edge = "State \<times> char \<times> State"

text \<open>The edges the automaton records, row by row.\<close>

definition all_edges :: "DFA \<Rightarrow> edge list" where
  "all_edges d =
     concat (map (\<lambda>(s, row). map (\<lambda>(symb, t). (s, symb, t)) row) (transitions d))"

text \<open>The inner \<open>for sym, next_state in self.transitions[current_state[2]].items()\<close>.\<close>

fun enqueue_unvisited ::
  "State \<Rightarrow> (char \<times> State) list \<Rightarrow> edge list \<times> edge set \<Rightarrow> edge list \<times> edge set" where
  "enqueue_unvisited c [] qv = qv"
| "enqueue_unvisited c ((symb, next_state) # row) (queue, visited) =
     (if (c, symb, next_state) \<notin> visited
      then enqueue_unvisited c row
             (queue @ [(c, symb, next_state)], insert (c, symb, next_state) visited)
      else enqueue_unvisited c row (queue, visited))"

definition explore :: "DFA \<Rightarrow> edge \<Rightarrow> edge list \<times> edge set \<Rightarrow> edge list \<times> edge set" where
  "explore d current_state qv =
     (case map_of (transitions d) (snd (snd current_state)) of
        None \<Rightarrow> qv
      | Some row \<Rightarrow> enqueue_unvisited (snd (snd current_state)) row qv)"

lemma enqueue_unvisited_measure:
  "(\<And>symb t. (symb, t) \<in> set row \<Longrightarrow> (c, symb, t) \<in> E) \<Longrightarrow> finite E \<Longrightarrow>
   2 * card (E - snd (enqueue_unvisited c row (q, v))) + length (fst (enqueue_unvisited c row (q, v)))
     \<le> 2 * card (E - v) + length q"
proof (induction row arbitrary: q v)
  case Nil
  then show ?case by simp
next
  case (Cons p row)
  obtain symb t where p: "p = (symb, t)" by (cases p)
  show ?case
  proof (cases "(c, symb, t) \<in> v")
    case True
    then show ?thesis using Cons p by simp
  next
    case False
    have inE: "(c, symb, t) \<in> E" using Cons.prems(1) p by simp
    have fin: "finite (E - v)" using Cons.prems(2) by simp
    have mem: "(c, symb, t) \<in> E - v" using inE False by simp
    have split: "E - insert (c, symb, t) v = (E - v) - {(c, symb, t)}" by auto
    have "card (E - insert (c, symb, t) v) = card (E - v) - 1"
      using mem fin by (simp add: split)
    moreover have "card (E - v) \<ge> 1"
      using mem fin by (metis One_nat_def Suc_leI card_gt_0_iff empty_iff)
    moreover have
      "2 * card (E - snd (enqueue_unvisited c row (q @ [(c, symb, t)], insert (c, symb, t) v)))
         + length (fst (enqueue_unvisited c row (q @ [(c, symb, t)], insert (c, symb, t) v)))
       \<le> 2 * card (E - insert (c, symb, t) v) + length (q @ [(c, symb, t)])"
      using Cons.IH[of "q @ [(c, symb, t)]" "insert (c, symb, t) v"] Cons.prems by simp
    ultimately show ?thesis using False p by simp
  qed
qed

lemma row_edges_in_all_edges:
  "map_of (transitions d) c = Some row \<Longrightarrow> (symb, t) \<in> set row \<Longrightarrow> (c, symb, t) \<in> set (all_edges d)"
  by (force simp: all_edges_def dest: map_of_SomeD)

lemma explore_measure:
  "2 * card (set (all_edges d) - snd (explore d e (q, v))) + length (fst (explore d e (q, v)))
     \<le> 2 * card (set (all_edges d) - v) + length q"
proof (cases "map_of (transitions d) (snd (snd e))")
  case None
  then show ?thesis by (simp add: explore_def)
next
  case (Some row)
  then show ?thesis
    using enqueue_unvisited_measure[of row "snd (snd e)" "set (all_edges d)" q v]
      row_edges_in_all_edges[OF Some]
    by (simp add: explore_def)
qed

text \<open>The \<open>while queue:\<close> loop of \<open>bfs_traverse\<close>; the result is the sequence it yields.\<close>

function bfs_loop :: "DFA \<Rightarrow> edge list \<times> edge set \<Rightarrow> edge list" where
  "bfs_loop d (queue, visited) =
     (case queue of
        [] \<Rightarrow> []
      | current_state # rest \<Rightarrow> current_state # bfs_loop d (explore d current_state (rest, visited)))"
  by pat_completeness auto
termination
proof (relation "measure (\<lambda>(d, qv). 2 * card (set (all_edges d) - snd qv) + length (fst qv))")
  show "wf (measure (\<lambda>(d, qv). 2 * card (set (all_edges d) - snd qv) + length (fst qv)))"
    by simp
next
  fix d :: DFA and queue :: "edge list" and visited :: "edge set" and current_state rest
  assume "queue = current_state # rest"
  then show "((d, explore d current_state (rest, visited)), (d, queue, visited))
          \<in> measure (\<lambda>(d, qv). 2 * card (set (all_edges d) - snd qv) + length (fst qv))"
    using explore_measure[of d current_state rest visited] by simp
qed

declare bfs_loop.simps [simp del]

definition bfs_traverse :: "DFA \<Rightarrow> error + edge list" where
  "bfs_traverse d =
     (case initial_state d of
        None \<Rightarrow> Inl NoInitialState
      | Some init \<Rightarrow>
          (case map_of (transitions d) init of
             None \<Rightarrow> Inl KeyError
           | Some row \<Rightarrow>
               let first_level_children =
                     map (\<lambda>(chr, s). (init, chr, s)) (filter (\<lambda>(chr, s). s \<noteq> init) row)
               in Inr (bfs_loop d (first_level_children, set first_level_children))))"

section \<open>Following the fail functions at search time\<close>

text \<open>
  The loop
  \<^verbatim>\<open>while (not (transition_state := dfa.transition(fail_functions[i], sym) or 0) and i > 0): i = fail_functions[i]\<close>
  of \<open>search_lazy_transition\<close> (and of its copy in \<open>AhoCorasickMatcher.search\<close>).  Nothing
  in the loop bounds the number of iterations, so the model is a partial function:
  \<open>None\<close> means that the loop never exits, \<open>Some (Inl e)\<close> that the subscript raised.
\<close>

partial_function (option) follow_fail ::
  "DFA \<Rightarrow> int list \<Rightarrow> char \<Rightarrow> int \<Rightarrow> (error + State) option" where
  "follow_fail d fail_functions symb fail_functions_index =
     (case py_index fail_functions fail_functions_index of
        Inl e \<Rightarrow> Some (Inl e)
      | Inr f \<Rightarrow>
          let transition_state = or0 (transition d f symb)
          in if transition_state = 0 \<and> fail_functions_index > 0
             then follow_fail d fail_functions symb f
             else Some (Inr transition_state))"

declare follow_fail.simps [code]

text \<open>
  One symbol of the on-the-fly walk: the body of the \<open>for\<close> loop up to the assignment of
  \<open>state\<close>.  The result is the new state or the error raised, with the automaton after the
  step (the resolved edge is cached as a FAILURE transition).
\<close>

definition lazy_step ::
  "DFA \<Rightarrow> int list \<Rightarrow> State \<Rightarrow> char \<Rightarrow> ((error + State) \<times> DFA) option" where
  "lazy_step d fail_functions state symb =
     (case transition d state symb of
        Some new_state \<Rightarrow> Some (Inr new_state, d)
      | None \<Rightarrow>
          (case follow_fail d fail_functions symb (if state > 0 then state - 1 else 0) of
             None \<Rightarrow> None
           | Some (Inl e) \<Rightarrow> Some (Inl e, d)
           | Some (Inr transition_state) \<Rightarrow>
               (case add_transition d state symb (or0 (Some transition_state)) FAILURE of
                  (Some e, d1) \<Rightarrow> Some (Inl e, d1)
                | (None, d1) \<Rightarrow> Some (Inr transition_state, d1))))"

section \<open>The single-pattern matcher (\<open>strings/kmp.py\<close>)\<close>

record Matcher =
  compute_transitions :: bool
  fail_functions :: "int list"
  dfa :: DFA

text \<open>
  \<open>pattern\<close> is an attribute that only \<open>__init__\<close> assigns; a matcher made by
  \<open>load_matcher_from_file\<close> does not have it, and reading it raises \<open>AttributeError\<close>.
\<close>

record KMPMatcher = Matcher +
  pattern :: "string option"

text \<open>
  \<open>search\<close> is a generator.  What it does is the list of the matches it yields, in
  order, and the way it ends after the last of them: it returns, it raises, or it never
  leaves a loop that follows the fail functions.  A search also leaves the automaton as
  it is at that moment, with the edges cached so far.
\<close>

type_synonym matches = "(int \<times> string) list"

datatype ending = Returns | Raises error | Hangs

text \<open>The \<open>for index, sym in enumerate(pattern)\<close> loop of \<open>_initialize_dfa\<close>.\<close>

fun kmp_add_states :: "DFA \<Rightarrow> nat \<Rightarrow> (nat \<times> char) list \<Rightarrow> error + DFA" where
  "kmp_add_states d n [] = Inr d"
| "kmp_add_states d n ((index, symb) # rest) =
     (case add_state d (int index = int n - 1) (index = 0) of
        (Inl e, _) \<Rightarrow> Inl e
      | (Inr _, d1) \<Rightarrow>
          if index < n
          then (case add_transition d1 (int index) symb (int index + 1) SUCCESS of
                  (Some e, _) \<Rightarrow> Inl e
                | (None, d2) \<Rightarrow> kmp_add_states d2 n rest)
          else kmp_add_states d1 n rest)"

text \<open>\<open>for a in alphabets: if not dfa.transition(0, a): dfa.add_transition(0, a, 0, FAILURE)\<close>.\<close>

fun kmp_init_state0 :: "DFA \<Rightarrow> char list \<Rightarrow> error + DFA" where
  "kmp_init_state0 d [] = Inr d"
| "kmp_init_state0 d (a # as) =
     (if \<not> truthy (transition d 0 a)
      then (case add_transition d 0 a 0 FAILURE of
              (Some e, _) \<Rightarrow> Inl e
            | (None, d1) \<Rightarrow> kmp_init_state0 d1 as)
      else kmp_init_state0 d as)"

definition KMP_initialize_dfa :: "bool \<Rightarrow> char list \<Rightarrow> string \<Rightarrow> error + DFA" where
  "KMP_initialize_dfa compute al pat =
     (case add_state (DFA_init (set al)) (0 = length pat) True of
        (Inl e, _) \<Rightarrow> Inl e
      | (Inr _, d0) \<Rightarrow>
          (case kmp_add_states d0 (length pat) (enumerate 0 pat) of
             Inl e \<Rightarrow> Inl e
           | Inr d1 \<Rightarrow> if compute then kmp_init_state0 d1 al else Inr d1))"

text \<open>The inner \<open>for a in alphabet_set\<close> of \<open>__init__\<close>, for one state \<open>index\<close>.\<close>

fun kmp_set_transitions :: "DFA \<Rightarrow> int list \<Rightarrow> nat \<Rightarrow> char list \<Rightarrow> error + DFA" where
  "kmp_set_transitions d ff index [] = Inr d"
| "kmp_set_transitions d ff index (a # as) =
     (if \<not> has_transition d (int index) a
      then (case py_index ff (int index - 1) of
              Inl e \<Rightarrow> Inl e
            | Inr f \<Rightarrow>
                (case add_transition d (int index) a (or0 (transition d f a)) FAILURE of
                   (Some e, _) \<Rightarrow> Inl e
                 | (None, d1) \<Rightarrow> kmp_set_transitions d1 ff index as))
      else kmp_set_transitions d ff index as)"

text \<open>The \<open>for index in range(1, len(pattern) + 1)\<close> loop of \<open>__init__\<close>.\<close>

fun kmp_fail_loop ::
  "bool \<Rightarrow> char list \<Rightarrow> string \<Rightarrow> DFA \<Rightarrow> int list \<Rightarrow> nat list \<Rightarrow> error + DFA \<times> int list" where
  "kmp_fail_loop compute al pat d ff [] = Inr (d, ff)"
| "kmp_fail_loop compute al pat d ff (index # rest) =
     (case (if compute then kmp_set_transitions d ff index al else Inr d) of
        Inl e \<Rightarrow> Inl e
      | Inr d1 \<Rightarrow>
          if index < length pat
          then (case py_index ff (int index - 1) of
                  Inl e \<Rightarrow> Inl e
                | Inr f \<Rightarrow>
                    (case py_setitem ff (int index) (or0 (transition d1 f (pat ! index))) of
                       Inl e \<Rightarrow> Inl e
                     | Inr ff1 \<Rightarrow> kmp_fail_loop compute al pat d1 ff1 rest))
          else kmp_fail_loop compute al pat d1 ff rest)"

text \<open>
  \<open>alphabet_set = set(alphabets) if alphabets else set(pattern)\<close>.  The builder iterates
  over this set several times; \<open>KMPMatcher_init\<close> takes the set as the list \<open>al\<close> of its
  elements in iteration order.
\<close>

definition kmp_alphabet_set :: "string option \<Rightarrow> string \<Rightarrow> char set" where
  "kmp_alphabet_set alphabets_arg pat =
     (case alphabets_arg of
        None \<Rightarrow> set pat
      | Some a \<Rightarrow> if a = [] then set pat else set a)"

definition KMPMatcher_init :: "char list \<Rightarrow> string \<Rightarrow> bool \<Rightarrow> error + KMPMatcher" where
  "KMPMatcher_init al pat compute =
     (if pat = [] then Inl EmptyPattern
      else
        (case KMP_initialize_dfa compute al pat of
           Inl e \<Rightarrow> Inl e
         | Inr d \<Rightarrow>
             (case kmp_fail_loop compute al pat d (replicate (length pat) 0)
                     [1 ..< length pat + 1] of
                Inl e \<Rightarrow> Inl e
              | Inr (d1, ff) \<Rightarrow>
                  Inr \<lparr> compute_transitions = compute, fail_functions = ff, dfa = d1,
                        pattern = Some pat \<rparr>)))"

subsection \<open>Search\<close>

text \<open>The precomputed branch of \<open>KMPMatcher.search\<close>; \<open>state\<close> and \<open>index\<close> are the loop
  variables.\<close>

fun kmp_search_precomputed ::
  "DFA \<Rightarrow> string option \<Rightarrow> State \<Rightarrow> int \<Rightarrow> string \<Rightarrow> matches \<times> ending" where
  "kmp_search_precomputed d pat state index [] = ([], Returns)"
| "kmp_search_precomputed d pat state index (symb # s) =
     (case transition d state symb of
        None \<Rightarrow> ([], Raises AutomatonInvariantViolation)
      | Some new_state \<Rightarrow>
          (case is_accepting_state d new_state of
             Inl e \<Rightarrow> ([], Raises e)
           | Inr False \<Rightarrow> kmp_search_precomputed d pat new_state (index + 1) s
           | Inr True \<Rightarrow>
               (case pat of
                  None \<Rightarrow> ([], Raises AttributeError)
                | Some p \<Rightarrow>
                    (case kmp_search_precomputed d pat new_state (index + 1) s of
                       (ys, e) \<Rightarrow> ((index - new_state + 1, p) # ys, e)))))"

text \<open>
  \<open>search_lazy_transition\<close>.  When the loop that follows the fail functions does not
  terminate at some symbol, the generator has yielded the matches found before that
  symbol and yields nothing more: the search ends with \<open>Hangs\<close>.
\<close>

fun search_lazy_transition ::
  "DFA \<Rightarrow> int list \<Rightarrow> string \<Rightarrow> State \<Rightarrow> int \<Rightarrow> string \<Rightarrow> matches \<times> ending \<times> DFA" where
  "search_lazy_transition d ff pat state index [] = ([], Returns, d)"
| "search_lazy_transition d ff pat state index (symb # s) =
     (case lazy_step d ff state symb of
        None \<Rightarrow> ([], Hangs, d)
      | Some (Inl e, d1) \<Rightarrow> ([], Raises e, d1)
      | Some (Inr new_state, d1) \<Rightarrow>
          (case is_accepting_state d1 new_state of
             Inl e \<Rightarrow> ([], Raises e, d1)
           | Inr False \<Rightarrow> search_lazy_transition d1 ff pat new_state (index + 1) s
           | Inr True \<Rightarrow>
               (case search_lazy_transition d1 ff pat new_state (index + 1) s of
                  (ys, e, d2) \<Rightarrow> ((index - new_state + 1, pat) # ys, e, d2))))"

text \<open>
  \<open>KMPMatcher.search\<close>.  In the on-the-fly branch \<open>self.pattern\<close> is an argument of the call
  of \<open>search_lazy_transition\<close>, so a matcher without the attribute raises before the walk
  starts.
\<close>

definition KMPMatcher_search ::
  "KMPMatcher \<Rightarrow> string \<Rightarrow> matches \<times> ending \<times> KMPMatcher" where
  "KMPMatcher_search m s =
     (if compute_transitions m
      then (case kmp_search_precomputed (dfa m) (pattern m) 0 0 s of
              (ys, e) \<Rightarrow> (ys, e, m))
      else (case pattern m of
              None \<Rightarrow> ([], Raises AttributeError, m)
            | Some pat \<Rightarrow>
                (case search_lazy_transition (dfa m) (fail_functions m) pat 0 0 s of
                   (ys, e, d1) \<Rightarrow> (ys, e, m\<lparr>dfa := d1\<rparr>))))"

section \<open>The multi-pattern matcher (\<open>strings/ahocorasick.py\<close>)\<close>

record AhoCorasickMatcher = Matcher +
  pattern_map :: "(State \<times> string) list"

definition alphabet_set_from_alphabets :: "string option \<Rightarrow> string list \<Rightarrow> char set" where
  "alphabet_set_from_alphabets alphabets_arg patterns =
     (case alphabets_arg of
        None \<Rightarrow> \<Union> (set ` set patterns)
      | Some a \<Rightarrow> set a)"

text \<open>
  The \<open>while i < len(pattern) and (new_state := dfa.transition(state, pattern[i]))\<close> loop of
  \<open>_add_pattern\<close>, over the symbols of the pattern not yet read.  The result is \<open>i\<close>,
  \<open>state\<close> and \<open>new_state\<close> at the exit; the loop also exits on a transition to state 0,
  which is falsy.
\<close>

fun follow_existing ::
  "DFA \<Rightarrow> nat \<Rightarrow> State \<Rightarrow> State option \<Rightarrow> string \<Rightarrow> nat \<times> State \<times> State option" where
  "follow_existing d i state new_state [] = (i, state, new_state)"
| "follow_existing d i state new_state (c # cs) =
     (case transition d state c of
        None \<Rightarrow> (i, state, None)
      | Some t \<Rightarrow> if t = 0 then (i, state, Some 0) else follow_existing d (i + 1) t (Some t) cs)"

text \<open>The \<open>for j in range(i, len(pattern))\<close> loop of \<open>_add_pattern\<close>.\<close>

fun create_states ::
  "string \<Rightarrow> DFA \<Rightarrow> State \<Rightarrow> (State \<times> string) list \<Rightarrow> nat list
     \<Rightarrow> error + DFA \<times> State \<times> (State \<times> string) list" where
  "create_states pat d state pm [] = Inr (d, state, pm)"
| "create_states pat d state pm (j # js) =
     (case add_state d (int j = int (length pat) - 1) False of
        (Inl e, _) \<Rightarrow> Inl e
      | (Inr added_state, d1) \<Rightarrow>
          (case add_transition d1 state (pat ! j) added_state SUCCESS of
             (Some e, _) \<Rightarrow> Inl e
           | (None, d2) \<Rightarrow>
               create_states pat d2 added_state (AList.update added_state (take j pat) pm) js))"

text \<open>
  \<open>_add_pattern\<close>: the automaton after the call and the dict it returns.  When the new
  states are created and the \<open>for\<close> loop has no iteration, \<open>j\<close> is unbound in
  \<open>pattern[: j + 1]\<close>; otherwise \<open>j\<close> is \<open>len(pattern) - 1\<close> there.
\<close>

definition add_pattern :: "DFA \<Rightarrow> string \<Rightarrow> error + DFA \<times> (State \<times> string) list" where
  "add_pattern d pat =
     (case initial_state d of
        None \<Rightarrow> Inl NoInitialState
      | Some init \<Rightarrow>
          (case follow_existing d 0 init None pat of
             (i, state, None) \<Rightarrow>
               (case create_states pat d state [(0, [])] [i ..< length pat] of
                  Inl e \<Rightarrow> Inl e
                | Inr (d1, state1, pm) \<Rightarrow>
                    if i < length pat
                    then Inr (d1, AList.update state1 (take (length pat - 1 + 1) pat) pm)
                    else Inl UnboundLocalError)
           | (i, state, Some new_state) \<Rightarrow>
               if i = length pat
               then (case set_accepting d new_state True of
                       Inl e \<Rightarrow> Inl e
                     | Inr d1 \<Rightarrow> Inr (d1, [(0, [])]))
               else Inr (d, [(0, [])])))"

text \<open>\<open>for pattern in patterns: pattern_map.update(self._add_pattern(dfa, pattern))\<close>.\<close>

fun add_patterns ::
  "DFA \<Rightarrow> (State \<times> string) list \<Rightarrow> string list \<Rightarrow> error + DFA \<times> (State \<times> string) list" where
  "add_patterns d pm [] = Inr (d, pm)"
| "add_patterns d pm (pat # pats) =
     (case add_pattern d pat of
        Inl e \<Rightarrow> Inl e
      | Inr (d1, pm1) \<Rightarrow> add_patterns d1 (fold (\<lambda>(k, v). AList.update k v) pm1 pm) pats)"

text \<open>\<open>_initialize_root\<close>, for \<open>compute_transitions = True\<close>.\<close>

fun initialize_root :: "DFA \<Rightarrow> char list \<Rightarrow> error + DFA" where
  "initialize_root d [] = Inr d"
| "initialize_root d (a # as) =
     (if transition d 0 a = None
      then (case add_transition d 0 a 0 FAILURE of
              (Some e, _) \<Rightarrow> Inl e
            | (None, d1) \<Rightarrow> initialize_root d1 as)
      else initialize_root d as)"

definition AC_initialize_dfa ::
  "bool \<Rightarrow> char list \<Rightarrow> string list \<Rightarrow> error + DFA \<times> (State \<times> string) list" where
  "AC_initialize_dfa compute al patterns =
     (case add_state (DFA_init (set al)) False True of
        (Inl e, _) \<Rightarrow> Inl e
      | (Inr _, d0) \<Rightarrow>
          (case add_patterns d0 [] patterns of
             Inl e \<Rightarrow> Inl e
           | Inr (d1, pm) \<Rightarrow>
               (case (if compute then initialize_root d1 al else Inr d1) of
                  Inl e \<Rightarrow> Inl e
                | Inr d2 \<Rightarrow> Inr (d2, pm))))"

text \<open>\<open>_initialize_top_level\<close>, for \<open>compute_transitions = True\<close>.\<close>

fun initialize_top_level :: "char \<Rightarrow> State \<Rightarrow> DFA \<Rightarrow> char list \<Rightarrow> error + DFA" where
  "initialize_top_level symb index d [] = Inr d"
| "initialize_top_level symb index d (a # as) =
     (if \<not> truthy (transition d index a)
      then (case add_transition d index a (if symb = a then index else 0) FAILURE of
              (Some e, _) \<Rightarrow> Inl e
            | (None, d1) \<Rightarrow> initialize_top_level symb index d1 as)
      else initialize_top_level symb index d as)"

text \<open>\<open>precompute_possible_transitions\<close>.\<close>

fun precompute_possible_transitions ::
  "DFA \<Rightarrow> State \<Rightarrow> char list \<Rightarrow> int list \<Rightarrow> error + DFA" where
  "precompute_possible_transitions d index [] ff = Inr d"
| "precompute_possible_transitions d index (a # as) ff =
     (if transition d index a = None
      then (case py_index ff (index - 1) of
              Inl e \<Rightarrow> Inl e
            | Inr f \<Rightarrow>
                (case transition d f a of
                   None \<Rightarrow> Inl (InvalidTransition index a)
                 | Some to_state \<Rightarrow>
                     (case add_transition d index a to_state FAILURE of
                        (Some e, _) \<Rightarrow> Inl e
                      | (None, d1) \<Rightarrow> precompute_possible_transitions d1 index as ff)))
      else precompute_possible_transitions d index as ff)"

text \<open>The \<open>for parent, sym, index in list(dfa.bfs_traverse())\<close> loop of \<open>__init__\<close>.\<close>

fun ac_fail_loop ::
  "bool \<Rightarrow> char list \<Rightarrow> DFA \<Rightarrow> int list \<Rightarrow> edge list \<Rightarrow> error + DFA \<times> int list" where
  "ac_fail_loop compute al d ff [] = Inr (d, ff)"
| "ac_fail_loop compute al d ff ((parent, symb, index) # rest) =
     (if parent = 0
      then (case (if compute then initialize_top_level symb index d al else Inr d) of
              Inl e \<Rightarrow> Inl e
            | Inr d1 \<Rightarrow> ac_fail_loop compute al d1 ff rest)
      else
        (case py_index ff (parent - 1) of
           Inl e \<Rightarrow> Inl e
         | Inr f \<Rightarrow>
             (case py_setitem ff (index - 1) (or0 (transition d f symb)) of
                Inl e \<Rightarrow> Inl e
              | Inr ff1 \<Rightarrow>
                  (case (if compute then precompute_possible_transitions d index al ff1
                         else Inr d) of
                     Inl e \<Rightarrow> Inl e
                   | Inr d1 \<Rightarrow> ac_fail_loop compute al d1 ff1 rest))))"

definition AhoCorasickMatcher_init ::
  "char list \<Rightarrow> string list \<Rightarrow> bool \<Rightarrow> error + AhoCorasickMatcher" where
  "AhoCorasickMatcher_init al patterns compute =
     (if patterns = [] then Inl EmptyPatternSet
      else if [] \<in> set patterns then Inl EmptyPattern
      else
        (case AC_initialize_dfa compute al patterns of
           Inl e \<Rightarrow> Inl e
         | Inr (d, pm) \<Rightarrow>
             (case bfs_traverse d of
                Inl e \<Rightarrow> Inl e
              | Inr edges \<Rightarrow>
                  (case ac_fail_loop compute al d (replicate (nat (n_states d)) 0) edges of
                     Inl e \<Rightarrow> Inl e
                   | Inr (d1, ff) \<Rightarrow>
                       Inr \<lparr> compute_transitions = compute, fail_functions = ff, dfa = d1,
                             pattern_map = pm \<rparr>))))"

subsection \<open>Search\<close>

text \<open>\<open>self.pattern_map[state]\<close>.\<close>

definition pattern_of :: "(State \<times> string) list \<Rightarrow> State \<Rightarrow> error + string" where
  "pattern_of pm state = (case map_of pm state of None \<Rightarrow> Inl KeyError | Some p \<Rightarrow> Inr p)"

fun ac_search_precomputed ::
  "DFA \<Rightarrow> (State \<times> string) list \<Rightarrow> State \<Rightarrow> int \<Rightarrow> string \<Rightarrow> matches \<times> ending" where
  "ac_search_precomputed d pm state index [] = ([], Returns)"
| "ac_search_precomputed d pm state index (symb # s) =
     (case transition d state symb of
        None \<Rightarrow> ([], Raises AutomatonInvariantViolation)
      | Some new_state \<Rightarrow>
          (case is_accepting_state d new_state of
             Inl e \<Rightarrow> ([], Raises e)
           | Inr False \<Rightarrow> ac_search_precomputed d pm new_state (index + 1) s
           | Inr True \<Rightarrow>
               (case pattern_of pm new_state of
                  Inl e \<Rightarrow> ([], Raises e)
                | Inr p \<Rightarrow>
                    (case ac_search_precomputed d pm new_state (index + 1) s of
                       (ys, e) \<Rightarrow> ((index - int (length p) + 1, p) # ys, e)))))"

text \<open>The on-the-fly branch of \<open>search\<close>, the same loop as \<open>search_lazy_transition\<close>.\<close>

fun ac_search_lazy ::
  "DFA \<Rightarrow> int list \<Rightarrow> (State \<times> string) list \<Rightarrow> State \<Rightarrow> int \<Rightarrow> string
     \<Rightarrow> matches \<times> ending \<times> DFA" where
  "ac_search_lazy d ff pm state index [] = ([], Returns, d)"
| "ac_search_lazy d ff pm state index (symb # s) =
     (case lazy_step d ff state symb of
        None \<Rightarrow> ([], Hangs, d)
      | Some (Inl e, d1) \<Rightarrow> ([], Raises e, d1)
      | Some (Inr new_state, d1) \<Rightarrow>
          (case is_accepting_state d1 new_state of
             Inl e \<Rightarrow> ([], Raises e, d1)
           | Inr False \<Rightarrow> ac_search_lazy d1 ff pm new_state (index + 1) s
           | Inr True \<Rightarrow>
               (case pattern_of pm new_state of
                  Inl e \<Rightarrow> ([], Raises e, d1)
                | Inr p \<Rightarrow>
                    (case ac_search_lazy d1 ff pm new_state (index + 1) s of
                       (ys, e, d2) \<Rightarrow> ((index - int (length p) + 1, p) # ys, e, d2)))))"

definition AhoCorasickMatcher_search ::
  "AhoCorasickMatcher \<Rightarrow> string \<Rightarrow> matches \<times> ending \<times> AhoCorasickMatcher" where
  "AhoCorasickMatcher_search m s =
     (if compute_transitions m
      then (case ac_search_precomputed (dfa m) (pattern_map m) 0 0 s of
              (ys, e) \<Rightarrow> (ys, e, m))
      else (case ac_search_lazy (dfa m) (fail_functions m) (pattern_map m) 0 0 s of
              (ys, e, d1) \<Rightarrow> (ys, e, m\<lparr>dfa := d1\<rparr>)))"

section \<open>Persisted matchers (\<open>strings/stringsapp.py\<close>)\<close>

text \<open>
  The record \<open>DFA.to_dict\<close> makes.  Its dict keys are \<open>str(state)\<close>, read back with
  \<open>int(state_str)\<close>; the model keeps the integer.  The two arrays that \<open>to_dict\<close> makes
  from sets, \<open>list(self.alphabets)\<close> and \<open>list(self.accepting_states)\<close>, hold the elements
  in the iteration order of the set, and \<open>from_dict\<close> turns each of them back into a set
  at once (\<open>set(data["alphabets"])\<close>, \<open>set(data["accepting_states"])\<close>); nothing else
  reads them.  The record keeps each array as the set of its elements, so that no order
  is made up for it.  Transition kinds are stored by their enum values \<open>"success"\<close> and
  \<open>"failure"\<close>.
\<close>

record dfa_dict =
  dict_states :: "int option"
  dict_alphabets :: "char set"
  dict_transitions :: "(State \<times> (char \<times> State) list) list"
  dict_transition_types :: "(State \<times> (char \<times> string) list) list"
  dict_initial_state :: "State option"
  dict_accepting_states :: "State set"

definition type_value :: "TransitionType \<Rightarrow> string" where
  "type_value t = (case t of SUCCESS \<Rightarrow> ''success'' | FAILURE \<Rightarrow> ''failure'')"

text \<open>\<open>TransitionType(type_value)\<close>; any other string raises \<open>ValueError\<close>.\<close>

definition TransitionType_of :: "string \<Rightarrow> TransitionType option" where
  "TransitionType_of v =
     (if v = ''success'' then Some SUCCESS else if v = ''failure'' then Some FAILURE else None)"

definition to_dict :: "DFA \<Rightarrow> dfa_dict" where
  "to_dict d =
     \<lparr> dict_states = states d,
       dict_alphabets = alphabets d,
       dict_transitions = transitions d,
       dict_transition_types =
         map (\<lambda>(state, row). (state, map (\<lambda>(symbol, t). (symbol, type_value t)) row))
           (transition_types d),
       dict_initial_state = initial_state d,
       dict_accepting_states = accepting_states d \<rparr>"

text \<open>A dict comprehension over \<open>items()\<close>: later entries overwrite earlier ones with the
  same key.\<close>

definition dict_of_items :: "('k \<times> 'v) list \<Rightarrow> ('k \<times> 'v) list" where
  "dict_of_items kvs = fold (\<lambda>(k, v). AList.update k v) kvs []"

fun types_of_row :: "(char \<times> string) list \<Rightarrow> error + (char \<times> TransitionType) list" where
  "types_of_row [] = Inr []"
| "types_of_row ((symbol, v) # row) =
     (case TransitionType_of v of
        None \<Rightarrow> Inl (InvalidTransitionType v)
      | Some t \<Rightarrow> map_sum id (\<lambda>r. (symbol, t) # r) (types_of_row row))"

fun types_of_rows ::
  "(State \<times> (char \<times> string) list) list
     \<Rightarrow> error + (State \<times> (char \<times> TransitionType) list) list" where
  "types_of_rows [] = Inr []"
| "types_of_rows ((state, row) # rows) =
     (case types_of_row row of
        Inl e \<Rightarrow> Inl e
      | Inr r \<Rightarrow> map_sum id (\<lambda>rs. (state, dict_of_items r) # rs) (types_of_rows rows))"

definition from_dict :: "dfa_dict \<Rightarrow> error + DFA" where
  "from_dict dat =
     (case types_of_rows (dict_transition_types dat) of
        Inl e \<Rightarrow> Inl e
      | Inr types \<Rightarrow>
          Inr \<lparr> states = dict_states dat,
                alphabets = dict_alphabets dat,
                transitions =
                  dict_of_items (map (\<lambda>(state, row). (state, dict_of_items row))
                    (dict_transitions dat)),
                transition_types = dict_of_items types,
                initial_state = dict_initial_state dat,
                accepting_states = dict_accepting_states dat \<rparr>)"

text \<open>
  The JSON document \<open>build_dfa\<close> writes and \<open>load_matcher_from_file\<close> reads; a field that
  may be missing is an option.
\<close>

record saved_matcher =
  algorithm :: "string option"
  saved_pattern :: "string option"
  saved_patterns :: "string list option"
  saved_dfa :: dfa_dict
  saved_fail_functions :: "int list option"
  saved_pattern_map :: "(State \<times> string) list option"

datatype any_matcher = KMP KMPMatcher | AhoCorasick AhoCorasickMatcher

text \<open>The document \<open>build_dfa\<close> dumps for a KMP matcher, and for an Aho-Corasick matcher.\<close>

definition save_kmp :: "string list \<Rightarrow> KMPMatcher \<Rightarrow> saved_matcher" where
  "save_kmp patterns m =
     \<lparr> algorithm = Some ''kmp'', saved_pattern = Some (hd patterns), saved_patterns = None,
       saved_dfa = to_dict (dfa m), saved_fail_functions = Some (fail_functions m),
       saved_pattern_map = None \<rparr>"

definition save_ac :: "string list \<Rightarrow> AhoCorasickMatcher \<Rightarrow> saved_matcher" where
  "save_ac patterns m =
     \<lparr> algorithm = Some ''aho-corasick'', saved_pattern = None, saved_patterns = Some patterns,
       saved_dfa = to_dict (dfa m), saved_fail_functions = Some (fail_functions m),
       saved_pattern_map = Some (pattern_map m) \<rparr>"

text \<open>
  \<open>build_dfa\<close>, up to the document it writes: \<open>al\<close> is the alphabet set in iteration order.
\<close>

definition build_dfa :: "char list \<Rightarrow> string list \<Rightarrow> string \<Rightarrow> bool \<Rightarrow> error + saved_matcher" where
  "build_dfa al patterns algo precompute =
     (if algo = ''kmp''
      then (case patterns of
              [] \<Rightarrow> Inl IndexError
            | p # _ \<Rightarrow>
                (case KMPMatcher_init al p precompute of
                   Inl e \<Rightarrow> Inl e
                 | Inr m \<Rightarrow> Inr (save_kmp patterns m)))
      else (case AhoCorasickMatcher_init al patterns precompute of
              Inl e \<Rightarrow> Inl e
            | Inr m \<Rightarrow> Inr (save_ac patterns m)))"

text \<open>
  \<open>load_matcher_from_file\<close>, from the parsed document.  The KMP branches assign \<open>dfa\<close>,
  \<open>compute_transitions\<close> and \<open>fail_functions\<close> to an object made by \<open>__new__\<close>, and nothing
  else.
\<close>

definition load_matcher_from_file :: "saved_matcher \<Rightarrow> bool \<Rightarrow> error + any_matcher" where
  "load_matcher_from_file dat precompute =
     (case from_dict (saved_dfa dat) of
        Inl e \<Rightarrow> Inl e
      | Inr d \<Rightarrow>
          if algorithm dat = Some ''kmp''
          then (case saved_fail_functions dat of
                  None \<Rightarrow> Inl KeyError
                | Some ff \<Rightarrow>
                    Inr (KMP \<lparr> compute_transitions = precompute, fail_functions = ff, dfa = d,
                               pattern = None \<rparr>))
          else if algorithm dat = Some ''aho-corasick''
          then (case saved_fail_functions dat of
                  None \<Rightarrow> Inl KeyError
                | Some ff \<Rightarrow>
                    (case saved_pattern_map dat of
                       None \<Rightarrow> Inl KeyError
                     | Some pm \<Rightarrow>
                         Inr (AhoCorasick
                               \<lparr> compute_transitions = precompute, fail_functions = ff, dfa = d,
                                 pattern_map = dict_of_items pm \<rparr>)))
          else
            (let ff = (case saved_fail_functions dat of
                         None \<Rightarrow> replicate (nat (n_states d - 1)) 0
                       | Some f \<Rightarrow> f)
             in case saved_pattern_map dat of
                  Some pm \<Rightarrow>
                    Inr (AhoCorasick
                          \<lparr> compute_transitions = precompute, fail_functions = ff, dfa = d,
                            pattern_map = dict_of_items pm \<rparr>)
                | None \<Rightarrow>
                    Inr (KMP \<lparr> compute_transitions = precompute, fail_functions = ff, dfa = d,
                               pattern = None \<rparr>)))"

section \<open>What a caller observes of a search\<close>

text \<open>
  \<open>observed\<close> is what a caller who collects the whole search gets, as in
  \<open>list(matcher.search(s))\<close>: the matches and the exception that ended the search, if one
  did; \<open>None\<close> when the search hangs, since the caller then never gets anything.
\<close>

definition observed :: "matches \<times> ending \<times> 'm \<Rightarrow> (matches \<times> error option) option" where
  "observed r =
     (case r of
        (ys, Returns, _) \<Rightarrow> Some (ys, None)
      | (ys, Raises e, _) \<Rightarrow> Some (ys, Some e)
      | (ys, Hangs, _) \<Rightarrow> None)"

definition kmp_build_and_search ::
  "char list \<Rightarrow> string \<Rightarrow> bool \<Rightarrow> string \<Rightarrow> error + (matches \<times> error option) option" where
  "kmp_build_and_search al pat compute s =
     (case KMPMatcher_init al pat compute of
        Inl e \<Rightarrow> Inl e
      | Inr m \<Rightarrow> Inr (observed (KMPMatcher_search m s)))"

definition ac_build_and_search ::
  "char list \<Rightarrow> string list \<Rightarrow> bool \<Rightarrow> string \<Rightarrow> error + (matches \<times> error option) option" where
  "ac_build_and_search al patterns compute s =
     (case AhoCorasickMatcher_init al patterns compute of
        Inl e \<Rightarrow> Inl e
      | Inr m \<Rightarrow> Inr (observed (AhoCorasickMatcher_search m s)))"

definition any_search :: "any_matcher \<Rightarrow> string \<Rightarrow> (matches \<times> error option) option" where
  "any_search m s =
     (case m of
        KMP k \<Rightarrow> observed (KMPMatcher_search k s)
      | AhoCorasick a \<Rightarrow> observed (AhoCorasickMatcher_search a s))"

text \<open>Build, save, load with the same mode, search.\<close>

definition build_load_search ::
  "char list \<Rightarrow> string list \<Rightarrow> string \<Rightarrow> bool \<Rightarrow> string
     \<Rightarrow> error + (matches \<times> error option) option" where
  "build_load_search al patterns algo precompute s =
     (case build_dfa al patterns algo precompute of
        Inl e \<Rightarrow> Inl e
      | Inr dat \<Rightarrow>
          (case load_matcher_from_file dat precompute of
             Inl e \<Rightarrow> Inl e
           | Inr m \<Rightarrow> Inr (any_search m s)))"

definition kmp_fail_functions :: "char list \<Rightarrow> string \<Rightarrow> bool \<Rightarrow> error + int list" where
  "kmp_fail_functions al pat compute =
     (case KMPMatcher_init al pat compute of
        Inl e \<Rightarrow> Inl e
      | Inr m \<Rightarrow> Inr (fail_functions m))"

text \<open>The entries of the pattern map of a built matcher that belong to accepting states.\<close>

definition ac_accepting_patterns ::
  "char list \<Rightarrow> string list \<Rightarrow> bool \<Rightarrow> error + (State \<times> string) list" where
  "ac_accepting_patterns al patterns compute =
     (case AhoCorasickMatcher_init al patterns compute of
        Inl e \<Rightarrow> Inl e
      | Inr m \<Rightarrow> Inr (filter (\<lambda>(s, p). s \<in> accepting_states (dfa m)) (pattern_map m)))"

section \<open>The classical prefix function\<close>

text \<open>
  The prefix function as the specification words it: for a word, the length of its
  longest proper prefix that is also a suffix of it; the classical fail-function array of
  a pattern holds this value for the prefix of length \<open>i\<close> at index \<open>i - 1\<close>.
\<close>

definition longest_border :: "string \<Rightarrow> nat" where
  "longest_border w =
     (case filter (\<lambda>k. take k w = drop (length w - k) w) (rev [0 ..< length w]) of
        [] \<Rightarrow> 0
      | k # _ \<Rightarrow> k)"

definition classical_fail_functions :: "string \<Rightarrow> int list" where
  "classical_fail_functions pat =
     map (\<lambda>i. int (longest_border (take i pat))) [1 ..< length pat + 1]"

text \<open>
  \<open>kmp_delta p j a\<close>: the length of the longest prefix of the pattern \<open>p\<close> that is a suffix of
  its prefix of length \<open>j\<close> followed by \<open>a\<close>, the transition of the classical
  Knuth-Morris-Pratt automaton from state \<open>j\<close> on \<open>a\<close>.
\<close>

definition kmp_delta :: "string \<Rightarrow> nat \<Rightarrow> char \<Rightarrow> nat" where
  "kmp_delta p j a = Max {k. k \<le> length p \<and> suffix (take k p) (take j p @ [a])}"

section \<open>Well-formed automata\<close>

text \<open>
  \<open>in_range d s\<close>: the state \<open>s\<close> has been allocated (the test of \<open>is_accepting_state\<close> and
  \<open>add_transition\<close>).  \<open>well_formed d\<close>: what \<open>add_state\<close> and \<open>add_transition\<close> maintain: a
  recorded row is not empty, belongs to an allocated state, has a row of transition kinds
  beside it, and its entries are alphabet symbols leading to allocated states.
\<close>

definition in_range :: "DFA \<Rightarrow> State \<Rightarrow> bool" where
  "in_range d s = (case states d of None \<Rightarrow> False | Some n \<Rightarrow> 0 \<le> s \<and> s \<le> n)"

definition well_formed :: "DFA \<Rightarrow> bool" where
  "well_formed d \<longleftrightarrow>
     (\<forall>s row. map_of (transitions d) s = Some row \<longrightarrow>
        row \<noteq> [] \<and> in_range d s \<and> map_of (transition_types d) s \<noteq> None \<and>
        (\<forall>a t. map_of row a = Some t \<longrightarrow> a \<in> alphabets d \<and> in_range d t))"

text \<open>\<open>extends d d'\<close>: \<open>d'\<close> is \<open>d\<close> with more transitions, and nothing else changed.\<close>

definition extends :: "DFA \<Rightarrow> DFA \<Rightarrow> bool" where
  "extends d d' \<longleftrightarrow>
     states d' = states d \<and> alphabets d' = alphabets d \<and>
     initial_state d' = initial_state d \<and> accepting_states d' = accepting_states d \<and>
     (\<forall>s a t. transition d s a = Some t \<longrightarrow> transition d' s a = Some t)"

text \<open>\<open>complete d\<close>: every allocated state has a transition on every alphabet symbol.\<close>

definition complete :: "DFA \<Rightarrow> bool" where
  "complete d \<longleftrightarrow> (\<forall>s a. in_range d s \<and> a \<in> alphabets d \<longrightarrow> transition d s a \<noteq> None)"

section \<open>The two searches as one walk\<close>

text \<open>
  \<open>search_lazy_transition\<close> and the on-the-fly branch of \<open>AhoCorasickMatcher.search\<close> are
  the same loop; they differ in what they yield at an accepting state.  \<open>lazy_walk\<close> is
  that loop with the yielded pair as a parameter, and \<open>direct_walk\<close> is the loop of the
  two precomputed branches.  They are used to prove facts about both searches at once.
\<close>

fun lazy_walk ::
  "(int \<Rightarrow> State \<Rightarrow> error + int \<times> string) \<Rightarrow> DFA \<Rightarrow> int list \<Rightarrow> State \<Rightarrow> int \<Rightarrow> string
     \<Rightarrow> matches \<times> ending \<times> DFA" where
  "lazy_walk report d ff state index [] = ([], Returns, d)"
| "lazy_walk report d ff state index (symb # s) =
     (case lazy_step d ff state symb of
        None \<Rightarrow> ([], Hangs, d)
      | Some (Inl e, d1) \<Rightarrow> ([], Raises e, d1)
      | Some (Inr new_state, d1) \<Rightarrow>
          (case is_accepting_state d1 new_state of
             Inl e \<Rightarrow> ([], Raises e, d1)
           | Inr False \<Rightarrow> lazy_walk report d1 ff new_state (index + 1) s
           | Inr True \<Rightarrow>
               (case report index new_state of
                  Inl e \<Rightarrow> ([], Raises e, d1)
                | Inr y \<Rightarrow>
                    (case lazy_walk report d1 ff new_state (index + 1) s of
                       (ys, e, d2) \<Rightarrow> (y # ys, e, d2)))))"

fun direct_walk ::
  "(int \<Rightarrow> State \<Rightarrow> error + int \<times> string) \<Rightarrow> DFA \<Rightarrow> State \<Rightarrow> int \<Rightarrow> string
     \<Rightarrow> matches \<times> ending" where
  "direct_walk report d state index [] = ([], Returns)"
| "direct_walk report d state index (symb # s) =
     (case transition d state symb of
        None \<Rightarrow> ([], Raises AutomatonInvariantViolation)
      | Some new_state \<Rightarrow>
          (case is_accepting_state d new_state of
             Inl e \<Rightarrow> ([], Raises e)
           | Inr False \<Rightarrow> direct_walk report d new_state (index + 1) s
           | Inr True \<Rightarrow>
               (case report index new_state of
                  Inl e \<Rightarrow> ([], Raises e)
                | Inr y \<Rightarrow>
                    (case direct_walk report d new_state (index + 1) s of
                       (ys, e) \<Rightarrow> (y # ys, e)))))"

definition kmp_report :: "string option \<Rightarrow> int \<Rightarrow> State \<Rightarrow> error + int \<times> string" where
  "kmp_report pat index state =
     (case pat of None \<Rightarrow> Inl AttributeError | Some p \<Rightarrow> Inr (index - state + 1, p))"

definition ac_report :: "(State \<times> string) list \<Rightarrow> int \<Rightarrow> State \<Rightarrow> error + int \<times> string" where
  "ac_report pm index state =
     (case pattern_of pm state of
        Inl e \<Rightarrow> Inl e
      | Inr p \<Rightarrow> Inr (index - int (length p) + 1, p))"

text \<open>\<open>rooted d\<close>: every allocated state but state 0 has an edge from a smaller allocated
  state, as in a trie whose states are numbered in the order of their creation.\<close>

definition rooted :: "DFA \<Rightarrow> bool" where
  "rooted d \<longleftrightarrow>
     (\<forall>s. in_range d s \<and> s \<noteq> 0 \<longrightarrow>
        (\<exists>p a. in_range d p \<and> p < s \<and> transition d p a = Some s))"

section \<open>Example matchers\<close>

text \<open>
  The matchers built for the pattern \<open>AB\<close> and for the patterns \<open>AB\<close>, \<open>B\<close> over the alphabet
  \<open>{A, B}\<close>, in a given mode, and the single-pattern matcher after an on-the-fly search of
  \<open>AAB\<close>.  They serve as concrete instances of the general theorems.
\<close>

definition example_kmp :: "bool \<Rightarrow> KMPMatcher" where
  "example_kmp compute = projr (KMPMatcher_init ''AB'' ''AB'' compute)"

definition example_ac :: "bool \<Rightarrow> AhoCorasickMatcher" where
  "example_ac compute = projr (AhoCorasickMatcher_init ''AB'' [''AB'', ''B''] compute)"

definition example_kmp_searched :: KMPMatcher where
  "example_kmp_searched = snd (snd (KMPMatcher_search (example_kmp False) ''AAB''))"

text \<open>The single-pattern matcher built for the pattern \<open>AABA\<close> without precomputation.\<close>

definition example_kmp_aaba :: KMPMatcher where
  "example_kmp_aaba = projr (KMPMatcher_init ''AB'' ''AABA'' False)"

text \<open>
  The single-pattern matcher built for the pattern \<open>AA\<close> over the alphabet \<open>{A, B}\<close> without
  precomputation, and that matcher after an on-the-fly search of \<open>B\<close>, which caches the
  edge from state 0 on \<open>B\<close>; the multi-pattern matcher \<open>example_ac False\<close> after an
  on-the-fly search of \<open>AA\<close>, which caches the edge from state 1 on \<open>A\<close>.
\<close>

definition example_kmp_aa :: KMPMatcher where
  "example_kmp_aa = projr (KMPMatcher_init ''AB'' ''AA'' False)"

definition example_kmp_aa_searched :: KMPMatcher where
  "example_kmp_aa_searched = snd (snd (KMPMatcher_search example_kmp_aa ''B''))"

definition example_ac_searched :: AhoCorasickMatcher where
  "example_ac_searched = snd (snd (AhoCorasickMatcher_search (example_ac False) ''AA''))"

text \<open>
  An automaton with two states and no edge, and the same automaton with an edge from
  state 0 to state 1 on \<open>a\<close>, both made with \<open>add_state\<close> and \<open>add_transition\<close>.
\<close>

definition example_dfa_no_edge :: DFA where
  "example_dfa_no_edge =
     snd (add_state (snd (add_state (DFA_init {CHR ''a''}) False True)) True False)"

definition example_dfa_one_edge :: DFA where
  "example_dfa_one_edge = snd (add_transition example_dfa_no_edge 0 CHR ''a'' 1 SUCCESS)"

text \<open>
  The automaton that \<open>DFA.from_dict\<close> makes of the document
  \<^verbatim>\<open>{"states": 0, "alphabets": ["a"], "transitions": {"0": {}}, "transition_types": {"0": {}}, "initial_state": 0, "accepting_states": []}\<close>:
  its initial state has a row in the transition table, and the row is empty.
\<close>

definition example_dict_empty_row :: dfa_dict where
  "example_dict_empty_row =
     \<lparr> dict_states = Some 0, dict_alphabets = {CHR ''a''}, dict_transitions = [(0, [])],
       dict_transition_types = [(0, [])], dict_initial_state = Some 0,
       dict_accepting_states = {} \<rparr>"

definition example_dfa_empty_row :: DFA where
  "example_dfa_empty_row = projr (from_dict example_dict_empty_row)"

section \<open>Auxiliary facts\<close>

lemma distinct_two_orders:
  assumes "distinct al" "set al = {a, b}" "a \<noteq> b"
  shows "al = [a, b] \<or> al = [b, a]"
proof -
  have "length al = 2" using assms by (metis card_2_iff distinct_card)
  then obtain x y where al: "al = [x, y]"
    by (metis (no_types, opaque_lifting) One_nat_def Suc_1 length_0_conv length_Suc_conv)
  with assms show ?thesis by auto
qed

section \<open>The automaton operations keep an automaton well formed\<close>

lemma well_formed_DFA_init: "well_formed (DFA_init A)"
  by (simp add: well_formed_def DFA_init_def)

lemma extends_refl: "extends d d"
  by (simp add: extends_def)

lemma extends_trans: "extends d1 d2 \<Longrightarrow> extends d2 d3 \<Longrightarrow> extends d1 d3"
  by (simp add: extends_def)

lemma extends_in_range: "extends d d' \<Longrightarrow> in_range d' s = in_range d s"
  by (simp add: extends_def in_range_def)

lemma extends_is_accepting_state:
  "extends d d' \<Longrightarrow> is_accepting_state d' s = is_accepting_state d s"
  by (auto simp: extends_def is_accepting_state_def split: option.splits)

lemma well_formed_transition:
  "well_formed d \<Longrightarrow> transition d s a = Some t \<Longrightarrow> in_range d s \<and> in_range d t \<and> a \<in> alphabets d"
  by (auto simp: well_formed_def transition_def split: option.splits)

lemma add_transition_error_unchanged:
  assumes wf: "well_formed d" and add: "add_transition d s a t ty = (Some e, d')"
  shows "d' = d"
proof (cases "map_of (transitions d) s")
  case None
  then show ?thesis
    using add by (auto simp: add_transition_def Let_def split: option.splits if_splits)
next
  case (Some row)
  then have "map_of (transition_types d) s \<noteq> None"
    using wf unfolding well_formed_def by blast
  then show ?thesis
    using add Some by (auto simp: add_transition_def Let_def split: option.splits if_splits)
qed

lemma add_transition_frame:
  assumes "add_transition d s a t ty = (None, d')"
  shows "states d' = states d" "alphabets d' = alphabets d"
    "initial_state d' = initial_state d" "accepting_states d' = accepting_states d"
    "in_range d s" "in_range d t" "a \<in> alphabets d" "transition d s a = None"
  using assms
  by (auto simp: add_transition_def in_range_def transition_def Let_def
      split: option.splits if_splits)

lemma transition_add_transition:
  assumes "add_transition d s a t ty = (None, d')"
  shows "transition d' s' a' = (if s' = s \<and> a' = a then Some t else transition d s' a')"
  using assms
  by (auto simp: add_transition_def transition_def Let_def AList.update_conv'
      split: option.splits if_splits)

lemma add_transition_extends:
  assumes "add_transition d s a t ty = (None, d')"
  shows "extends d d'"
  using add_transition_frame[OF assms] transition_add_transition[OF assms]
  by (auto simp: extends_def)

lemma add_transition_well_formed:
  assumes wf: "well_formed d" and add: "add_transition d s a t ty = (None, d')"
  shows "well_formed d'"
proof -
  note fr = add_transition_frame[OF add]
  have rng: "in_range d' x = in_range d x" for x
    using fr(1) by (simp add: in_range_def)
  show ?thesis
    unfolding well_formed_def
  proof (intro allI impI)
    fix s' row'
    assume row': "map_of (transitions d') s' = Some row'"
    show "row' \<noteq> [] \<and> in_range d' s' \<and> map_of (transition_types d') s' \<noteq> None \<and>
          (\<forall>a' t'. map_of row' a' = Some t' \<longrightarrow> a' \<in> alphabets d' \<and> in_range d' t')"
    proof (cases "s' = s")
      case False
      then have old: "map_of (transitions d) s' = Some row'"
        using add row'
        by (auto simp: add_transition_def Let_def AList.update_conv'
            split: option.splits if_splits)
      have "map_of (transition_types d') s' = map_of (transition_types d) s'"
        using add False
        by (auto simp: add_transition_def Let_def AList.update_conv'
            split: option.splits if_splits)
      then show ?thesis
        using wf old fr(2) rng unfolding well_formed_def by metis
    next
      case True
      have types: "map_of (transition_types d') s \<noteq> None"
        using add
        by (auto simp: add_transition_def Let_def AList.update_conv'
            split: option.splits if_splits)
      have ne: "row' \<noteq> []"
        using add row' True
        by (auto simp: add_transition_def Let_def AList.update_conv'
            split: option.splits if_splits)
      have entries: "a' \<in> alphabets d' \<and> in_range d' t'" if "map_of row' a' = Some t'" for a' t'
      proof -
        have "transition d' s a' = Some t'"
          using that row' True by (simp add: transition_def)
        then have "(a' = a \<and> t' = t) \<or> transition d s a' = Some t'"
          using transition_add_transition[OF add, of s a'] by (auto split: if_splits)
        then show ?thesis
          using fr well_formed_transition[OF wf] rng by auto
      qed
      show ?thesis using ne types entries fr(5) rng True by blast
    qed
  qed
qed

lemma add_state_result:
  assumes "add_state d acc ini = (Inr n, d')"
  shows "n = n_states d" "states d' = Some n" "alphabets d' = alphabets d"
    "transitions d' = transitions d" "transition_types d' = transition_types d" "0 \<le> n_states d \<Longrightarrow> in_range d' n"
  using assms
  by (auto simp: add_state_def n_states_def in_range_def Let_def split: option.splits if_splits)

lemma add_state_in_range:
  assumes "add_state d acc ini = (Inr n, d')" "in_range d s"
  shows "in_range d' s" "s < n" "in_range d' n"
  using assms
  by (auto simp: add_state_def in_range_def Let_def split: option.splits if_splits)

lemma add_state_transition:
  assumes "add_state d acc ini = (r, d')"
  shows "transition d' s a = transition d s a"
  using assms
  by (auto simp: add_state_def transition_def Let_def split: option.splits if_splits)

lemma add_state_well_formed:
  assumes wf: "well_formed d" and add: "add_state d acc ini = (Inr n, d')"
  shows "well_formed d'"
proof -
  have rng: "in_range d x \<Longrightarrow> in_range d' x" for x
    using add by (auto simp: add_state_def in_range_def Let_def split: option.splits if_splits)
  show ?thesis
    using wf add_state_result(3,4,5)[OF add] rng
    unfolding well_formed_def by metis
qed

section \<open>Searching twice\<close>

lemma search_lazy_transition_walk:
  "search_lazy_transition d ff pat state index s = lazy_walk (kmp_report (Some pat)) d ff state index s"
  by (induction s arbitrary: d state index)
     (auto simp: kmp_report_def split: option.splits sum.splits bool.splits prod.splits)

lemma ac_search_lazy_walk:
  "ac_search_lazy d ff pm state index s = lazy_walk (ac_report pm) d ff state index s"
  by (induction s arbitrary: d state index)
     (auto simp: ac_report_def split: option.splits sum.splits bool.splits prod.splits)

lemma kmp_search_precomputed_walk:
  "kmp_search_precomputed d pat state index s = direct_walk (kmp_report pat) d state index s"
  by (induction s arbitrary: state index)
     (auto simp: kmp_report_def split: option.splits sum.splits bool.splits prod.splits)

lemma ac_search_precomputed_walk:
  "ac_search_precomputed d pm state index s = direct_walk (ac_report pm) d state index s"
  by (induction s arbitrary: state index)
     (auto simp: ac_report_def split: option.splits sum.splits bool.splits prod.splits)

lemma lazy_step_defined:
  "transition d state symb = Some t \<Longrightarrow> lazy_step d ff state symb = Some (Inr t, d)"
  by (simp add: lazy_step_def)

lemma lazy_step_Inr:
  assumes wf: "well_formed d" and step: "lazy_step d ff state symb = Some (Inr t, d1)"
  shows "extends d d1" "well_formed d1" "transition d1 state symb = Some t"
proof -
  show "extends d d1 " "well_formed d1" "transition d1 state symb = Some t"
  proof (atomize (full), cases "transition d state symb")
    case (Some t')
    then show "extends d d1 \<and> well_formed d1 \<and> transition d1 state symb = Some t"
      using step wf by (auto simp: lazy_step_def extends_refl)
  next
    case None
    then obtain ts where add: "add_transition d state symb (or0 (Some ts)) FAILURE = (None, d1)"
      and t: "t = ts"
      using step
      by (auto simp: lazy_step_def split: option.splits sum.splits prod.splits)
    have "transition d1 state symb = Some t"
      using transition_add_transition[OF add, of state symb] t by (simp add: or0_def)
    then show "extends d d1 \<and> well_formed d1 \<and> transition d1 state symb = Some t"
      using add_transition_extends[OF add] add_transition_well_formed[OF wf add] by simp
  qed
qed

lemma lazy_step_Inl:
  assumes wf: "well_formed d" and step: "lazy_step d ff state symb = Some (Inl e, d1)"
  shows "d1 = d"
  using step add_transition_error_unchanged[OF wf]
  by (auto simp: lazy_step_def split: option.splits sum.splits prod.splits)

lemma lazy_walk_extends:
  assumes "well_formed d" "lazy_walk report d ff state index s = (ys, e, d')"
  shows "extends d d' \<and> well_formed d'"
  using assms
proof (induction s arbitrary: d state index ys)
  case Nil
  then show ?case by (simp add: extends_refl)
next
  case (Cons symb s)
  show ?case
  proof (cases "lazy_step d ff state symb")
    case None
    then show ?thesis using Cons.prems by (simp add: extends_refl)
  next
    case (Some p)
    obtain r d1 where step: "lazy_step d ff state symb = Some (r, d1)"
      using Some by (cases p) simp
    show ?thesis
    proof (cases r)
      case (Inl e0)
      then have "d1 = d" using lazy_step_Inl[OF Cons.prems(1)] step by simp
      then show ?thesis using Cons.prems step Inl by (simp add: extends_refl)
    next
      case (Inr t)
      note st = lazy_step_Inr[OF Cons.prems(1) step[unfolded Inr]]
      show ?thesis
      proof (cases "is_accepting_state d1 t")
        case (Inl e0)
        then show ?thesis using Cons.prems(2) step Inr st by simp
      next
        case acc: (Inr b)
        show ?thesis
        proof (cases b)
          case False
          then have "lazy_walk report d1 ff t (index + 1) s = (ys, e, d')"
            using Cons.prems(2) step Inr acc by simp
          then show ?thesis using Cons.IH[OF st(2)] st(1) extends_trans by blast
        next
          case True
          show ?thesis
          proof (cases "report index t")
            case (Inl e0)
            then show ?thesis using Cons.prems(2) step Inr acc True st by simp
          next
            case rep: (Inr y)
            then obtain ys' where "lazy_walk report d1 ff t (index + 1) s = (ys', e, d')"
              using Cons.prems(2) step Inr acc True
              by (auto split: prod.splits)
            then show ?thesis using Cons.IH[OF st(2)] st(1) extends_trans by blast
          qed
        qed
      qed
    qed
  qed
qed

text \<open>
  The walk on the automaton that a first walk left.  Every step the first walk took is
  cached there, so the second walk takes it without following the fail functions; where
  the first walk raised or hung, the automaton is the one it raised or hung on.
\<close>

lemma lazy_walk_again:
  assumes "well_formed d" "lazy_walk report d ff state index s = (ys, e, d')"
  shows "lazy_walk report d' ff state index s = (ys, e, d')"
  using assms
proof (induction s arbitrary: d state index ys)
  case Nil
  then show ?case by simp
next
  case (Cons symb s)
  show ?case
  proof (cases "lazy_step d ff state symb")
    case None
    then have "d' = d" using Cons.prems(2) by simp
    then show ?thesis using Cons.prems(2) by simp
  next
    case (Some p)
    obtain r d1 where step: "lazy_step d ff state symb = Some (r, d1)"
      using Some by (cases p) simp
    show ?thesis
    proof (cases r)
      case (Inl e0)
      then have "d1 = d" using lazy_step_Inl[OF Cons.prems(1)] step by simp
      then have "d' = d" using Cons.prems(2) step Inl by simp
      then show ?thesis using Cons.prems(2) by simp
    next
      case (Inr t)
      note st = lazy_step_Inr[OF Cons.prems(1) step[unfolded Inr]]
      show ?thesis
      proof (cases "is_accepting_state d1 t")
        case (Inl e0)
        then have "d' = d1" using Cons.prems(2) step Inr by simp
        then show ?thesis
          using Cons.prems(2) step Inr Inl lazy_step_defined[OF st(3), of ff] by simp
      next
        case acc: (Inr b)
        have replay:
          "lazy_step d' ff state symb = Some (Inr t, d') \<and> is_accepting_state d' t = Inr b"
          if "extends d1 d'"
        proof -
          have "transition d' state symb = Some t" using that st(3) by (simp add: extends_def)
          then show ?thesis
            using lazy_step_defined extends_is_accepting_state[OF that] acc by simp
        qed
        show ?thesis
        proof (cases b)
          case False
          then have rest: "lazy_walk report d1 ff t (index + 1) s = (ys, e, d')"
            using Cons.prems(2) step Inr acc by simp
          have "extends d1 d'" using lazy_walk_extends[OF st(2) rest] by simp
          then show ?thesis using replay Cons.IH[OF st(2) rest] False by simp
        next
          case True
          show ?thesis
          proof (cases "report index t")
            case (Inl e0)
            then have "d' = d1" using Cons.prems(2) step Inr acc True by simp
            then show ?thesis
              using Cons.prems(2) step Inr acc True Inl lazy_step_defined[OF st(3), of ff]
              by simp
          next
            case rep: (Inr y)
            then obtain ys' where rest: "lazy_walk report d1 ff t (index + 1) s = (ys', e, d')"
              and ys: "ys = y # ys'"
              using Cons.prems(2) step Inr acc True
              by (auto split: prod.splits)
            have "extends d1 d'" using lazy_walk_extends[OF st(2) rest] by simp
            then show ?thesis using replay Cons.IH[OF st(2) rest] True rep ys by simp
          qed
        qed
      qed
    qed
  qed
qed

section \<open>The single-pattern builder\<close>

lemma kmp_add_states_result:
  assumes "kmp_add_states d n xs = Inr d'" "well_formed d" "states d = Some k"
  shows "well_formed d' \<and> alphabets d' = alphabets d \<and> states d' = Some (k + int (length xs))"
  using assms
proof (induction xs arbitrary: d k)
  case Nil
  then show ?case by simp
next
  case (Cons x xs)
  obtain index symb where x: "x = (index, symb)" by (cases x)
  from Cons.prems(1) x obtain m d1 where
    add: "add_state d (int index = int n - 1) (index = 0) = (Inr m, d1)"
    by (auto split: prod.splits sum.splits)
  have wf1: "well_formed d1" using add_state_well_formed[OF Cons.prems(2) add] .
  have st1: "states d1 = Some (k + 1)"
    using add_state_result(1,2)[OF add] Cons.prems(3) by (simp add: n_states_def)
  have al1: "alphabets d1 = alphabets d" using add_state_result(3)[OF add] .
  show ?case
  proof (cases "index < n")
    case True
    then obtain d2 where tr: "add_transition d1 (int index) symb (int index + 1) SUCCESS = (None, d2)"
      and rest: "kmp_add_states d2 n xs = Inr d'"
      using Cons.prems(1) x add by (auto split: prod.splits option.splits)
    have "well_formed d2" using add_transition_well_formed[OF wf1 tr] .
    moreover have "states d2 = Some (k + 1)" using add_transition_frame(1)[OF tr] st1 by simp
    moreover have "alphabets d2 = alphabets d" using add_transition_frame(2)[OF tr] al1 by simp
    ultimately show ?thesis using Cons.IH[OF rest, of "k + 1"] by simp
  next
    case False
    then have rest: "kmp_add_states d1 n xs = Inr d'"
      using Cons.prems(1) x add by simp
    show ?thesis using Cons.IH[OF rest wf1 st1] al1 by simp
  qed
qed

lemma kmp_init_state0_result:
  assumes "kmp_init_state0 d al = Inr d'" "well_formed d"
  shows "well_formed d' \<and> extends d d' \<and> (\<forall>a \<in> set al. transition d' 0 a \<noteq> None)"
  using assms
proof (induction al arbitrary: d)
  case Nil
  then show ?case by (simp add: extends_refl)
next
  case (Cons a al)
  show ?case
  proof (cases "truthy (transition d 0 a)")
    case True
    then have rest: "kmp_init_state0 d al = Inr d'" using Cons.prems(1) by simp
    have "transition d 0 a \<noteq> None" using True by (auto simp: truthy_def split: option.splits)
    then show ?thesis using Cons.IH[OF rest Cons.prems(2)] by (auto simp: extends_def)
  next
    case False
    then obtain d1 where tr: "add_transition d 0 a 0 FAILURE = (None, d1)"
      and rest: "kmp_init_state0 d1 al = Inr d'"
      using Cons.prems(1) by (auto split: prod.splits option.splits)
    have wf1: "well_formed d1" using add_transition_well_formed[OF Cons.prems(2) tr] .
    have "transition d1 0 a = Some 0" using transition_add_transition[OF tr, of 0 a] by simp
    then show ?thesis
      using Cons.IH[OF rest wf1] add_transition_extends[OF tr]
      by (auto simp: extends_def)
  qed
qed

lemma kmp_set_transitions_result:
  assumes "kmp_set_transitions d ff index al = Inr d'" "well_formed d"
  shows "well_formed d' \<and> extends d d' \<and> (\<forall>a \<in> set al. transition d' (int index) a \<noteq> None)"
  using assms
proof (induction al arbitrary: d)
  case Nil
  then show ?case by (simp add: extends_refl)
next
  case (Cons a al)
  show ?case
  proof (cases "has_transition d (int index) a")
    case True
    then have rest: "kmp_set_transitions d ff index al = Inr d'" using Cons.prems(1) by simp
    have "transition d (int index) a \<noteq> None" using True by (simp add: has_transition_def)
    then show ?thesis using Cons.IH[OF rest Cons.prems(2)] by (auto simp: extends_def)
  next
    case False
    then obtain f d1 where
      tr: "add_transition d (int index) a (or0 (transition d f a)) FAILURE = (None, d1)"
      and rest: "kmp_set_transitions d1 ff index al = Inr d'"
      using Cons.prems(1) by (auto split: prod.splits option.splits sum.splits)
    have wf1: "well_formed d1" using add_transition_well_formed[OF Cons.prems(2) tr] .
    have "transition d1 (int index) a \<noteq> None"
      using transition_add_transition[OF tr, of "int index" a] by simp
    then show ?thesis
      using Cons.IH[OF rest wf1] add_transition_extends[OF tr]
      by (auto simp: extends_def)
  qed
qed

lemma kmp_fail_loop_result:
  assumes "kmp_fail_loop compute al pat d ff idxs = Inr (d', ff')" "well_formed d"
  shows "well_formed d' \<and> extends d d' \<and>
         (compute \<longrightarrow> (\<forall>i \<in> set idxs. \<forall>a \<in> set al. transition d' (int i) a \<noteq> None))"
  using assms
proof (induction idxs arbitrary: d ff)
  case Nil
  then show ?case by (simp add: extends_refl)
next
  case (Cons index idxs)
  from Cons.prems(1) obtain d1 where
    row: "(if compute then kmp_set_transitions d ff index al else Inr d) = Inr d1"
    by (auto split: sum.splits)
  have d1: "well_formed d1 \<and> extends d d1 \<and>
            (compute \<longrightarrow> (\<forall>a \<in> set al. transition d1 (int index) a \<noteq> None))"
    using row kmp_set_transitions_result[of d ff index al d1] Cons.prems(2)
    by (auto simp: extends_refl split: if_splits)
  from Cons.prems(1) row obtain ff1 where rest: "kmp_fail_loop compute al pat d1 ff1 idxs = Inr (d', ff')"
    by (auto split: sum.splits if_splits)
  have r: "well_formed d' \<and> extends d1 d' \<and>
         (compute \<longrightarrow> (\<forall>i \<in> set idxs. \<forall>a \<in> set al. transition d' (int i) a \<noteq> None))"
    using Cons.IH[OF rest] d1 by simp
  have "transition d' (int index) a \<noteq> None" if "compute" "a \<in> set al" for a
  proof -
    have "transition d1 (int index) a \<noteq> None" using d1 that by blast
    then obtain t where "transition d1 (int index) a = Some t" by blast
    then show ?thesis using r by (auto simp: extends_def)
  qed
  then show ?case using r d1 extends_trans by auto
qed

lemma KMP_initialize_dfa_result:
  assumes "KMP_initialize_dfa compute al pat = Inr d"
  shows "well_formed d \<and> alphabets d = set al \<and> states d = Some (int (length pat)) \<and>
         (compute \<longrightarrow> (\<forall>a \<in> set al. transition d 0 a \<noteq> None))"
proof -
  from assms obtain m d0 d1 where
    a0: "add_state (DFA_init (set al)) (0 = length pat) True = (Inr m, d0)"
    and a1: "kmp_add_states d0 (length pat) (enumerate 0 pat) = Inr d1"
    and a2: "(if compute then kmp_init_state0 d1 al else Inr d1) = Inr d"
    by (auto simp: KMP_initialize_dfa_def split: prod.splits sum.splits)
  have wf0: "well_formed d0" using add_state_well_formed[OF well_formed_DFA_init a0] .
  have st0: "states d0 = Some 0" "alphabets d0 = set al"
    using add_state_result(1,2,3)[OF a0] by (simp_all add: n_states_def DFA_init_def)
  have d1: "well_formed d1 \<and> alphabets d1 = set al \<and> states d1 = Some (int (length pat))"
    using kmp_add_states_result[OF a1 wf0 st0(1)] st0(2) by simp
  show ?thesis
  proof (cases compute)
    case False
    then show ?thesis using a2 d1 by simp
  next
    case True
    then have "kmp_init_state0 d1 al = Inr d" using a2 by simp
    from kmp_init_state0_result[OF this] d1 show ?thesis by (auto simp: extends_def)
  qed
qed

lemma KMPMatcher_init_result:
  assumes "KMPMatcher_init al pat compute = Inr m"
  shows "well_formed (dfa m)" "alphabets (dfa m) = set al"
    "states (dfa m) = Some (int (length pat))" "compute_transitions m = compute"
    "pattern m = Some pat" "compute \<Longrightarrow> complete (dfa m)"
proof -
  from assms obtain d d1 ff where
    a0: "KMP_initialize_dfa compute al pat = Inr d"
    and a1: "kmp_fail_loop compute al pat d (replicate (length pat) 0) [1 ..< length pat + 1]
               = Inr (d1, ff)"
    and m: "m = \<lparr> compute_transitions = compute, fail_functions = ff, dfa = d1,
                  pattern = Some pat \<rparr>"
    by (auto simp: KMPMatcher_init_def split: sum.splits if_splits)
  note i = KMP_initialize_dfa_result[OF a0]
  have l: "well_formed d1 \<and> extends d d1 \<and>
         (compute \<longrightarrow> (\<forall>i \<in> set [1 ..< length pat + 1]. \<forall>a \<in> set al. transition d1 (int i) a \<noteq> None))"
    using kmp_fail_loop_result[OF a1] i by simp
  show "well_formed (dfa m)" using l m by simp
  show "alphabets (dfa m) = set al" using l i m by (simp add: extends_def)
  show st: "states (dfa m) = Some (int (length pat))" using l i m by (simp add: extends_def)
  show "compute_transitions m = compute" "pattern m = Some pat" using m by simp_all
  show "complete (dfa m)" if c: compute
    unfolding complete_def
  proof (intro allI impI)
    fix s a
    assume h: "in_range (dfa m) s \<and> a \<in> alphabets (dfa m)"
    then have a: "a \<in> set al" using l i m by (simp add: extends_def)
    have rng: "0 \<le> s \<and> s \<le> int (length pat)" using h st by (simp add: in_range_def)
    show "transition (dfa m) s a \<noteq> None"
    proof (cases "s = 0")
      case True
      obtain t where "transition d 0 a = Some t" using i c a by auto
      then show ?thesis using l m True by (auto simp: extends_def)
    next
      case False
      then have "nat s \<in> set [1 ..< length pat + 1]" using rng by auto
      then have "transition d1 (int (nat s)) a \<noteq> None" using l c a by blast
      then show ?thesis using m rng by simp
    qed
  qed
qed

section \<open>The trie of the multi-pattern builder\<close>

lemma extends_rooted: "extends d d' \<Longrightarrow> rooted d \<Longrightarrow> rooted d'"
  unfolding rooted_def extends_def in_range_def by metis

lemma accepting_states_update_simps:
  "well_formed (d\<lparr>accepting_states := X\<rparr>) = well_formed d"
  "rooted (d\<lparr>accepting_states := X\<rparr>) = rooted d"
  "in_range (d\<lparr>accepting_states := X\<rparr>) s = in_range d s"
  by (simp_all add: well_formed_def rooted_def in_range_def transition_def)

lemma add_state_in_range_iff:
  assumes "add_state d acc ini = (Inr n, d1)" "in_range d x"
  shows "in_range d1 s \<longleftrightarrow> in_range d s \<or> s = n"
  using assms
  by (auto simp: add_state_def in_range_def Let_def split: option.splits if_splits)

lemma follow_existing_in_range:
  assumes "follow_existing d i state ns pat = (i', state', ns')" "well_formed d" "in_range d state"
  shows "in_range d state'"
  using assms
proof (induction pat arbitrary: i state ns)
  case Nil
  then show ?case by simp
next
  case (Cons c cs)
  show ?case
  proof (cases "transition d state c")
    case None
    then show ?thesis using Cons.prems by simp
  next
    case (Some t)
    then have "in_range d t" using well_formed_transition[OF Cons.prems(2)] by blast
    then show ?thesis using Cons Some by (auto split: if_splits)
  qed
qed

lemma map_of_fold_update:
  "map_of (fold (\<lambda>(k, v). AList.update k v) kvs m) s \<noteq> None
     \<longleftrightarrow> map_of m s \<noteq> None \<or> s \<in> fst ` set kvs"
proof (induction kvs arbitrary: m)
  case Nil
  then show ?case by simp
next
  case (Cons kv kvs)
  obtain k v where kv: "kv = (k, v)" by (cases kv)
  show ?case using Cons[of "AList.update k v m"] kv
    by (auto simp: AList.update_conv')
qed

lemma create_states_result:
  assumes "create_states pat d state pm js = Inr (d', state', pm')"
    "well_formed d" "rooted d" "in_range d state"
  shows "well_formed d' \<and> rooted d' \<and> in_range d' state' \<and> alphabets d' = alphabets d \<and>
         initial_state d' = initial_state d \<and>
         (\<forall>s. in_range d s \<longrightarrow> in_range d' s) \<and>
         (\<forall>s. in_range d' s \<longrightarrow> in_range d s \<or> map_of pm' s \<noteq> None) \<and>
         (\<forall>s. map_of pm s \<noteq> None \<longrightarrow> map_of pm' s \<noteq> None)"
  using assms
proof (induction js arbitrary: d state pm)
  case Nil
  then show ?case by simp
next
  case (Cons j js)
  from Cons.prems(1) obtain n d1 d2 where
    add: "add_state d (int j = int (length pat) - 1) False = (Inr n, d1)"
    and tr: "add_transition d1 state (pat ! j) n SUCCESS = (None, d2)"
    and rest: "create_states pat d2 n (AList.update n (take j pat) pm) js = Inr (d', state', pm')"
    by (auto split: prod.splits sum.splits option.splits)
  note rng1 = add_state_in_range_iff[OF add Cons.prems(4)]
  have lt: "state < n" using add_state_in_range(2)[OF add Cons.prems(4)] .
  have wf1: "well_formed d1" using add_state_well_formed[OF Cons.prems(2) add] .
  have wf2: "well_formed d2" using add_transition_well_formed[OF wf1 tr] .
  have rng2: "in_range d2 s \<longleftrightarrow> in_range d s \<or> s = n" for s
    using rng1 add_transition_frame(1)[OF tr] by (simp add: in_range_def)
  have ini: "initial_state d2 = initial_state d"
    using add_transition_frame(3)[OF tr] add
    by (auto simp: add_state_def Let_def split: if_splits)
  have alp: "alphabets d2 = alphabets d"
    using add_transition_frame(2)[OF tr] add_state_result(3)[OF add] by simp
  have keep: "transition d2 p a = Some s" if "transition d p a = Some s" for p a s
    using that add_state_transition[OF add, of p a] add_transition_extends[OF tr]
    by (simp add: extends_def)
  have edge: "transition d2 state (pat ! j) = Some n"
    using transition_add_transition[OF tr, of state "pat ! j"] by simp
  have rooted2: "rooted d2"
    unfolding rooted_def
  proof (intro allI impI)
    fix s assume s: "in_range d2 s \<and> s \<noteq> 0"
    show "\<exists>p a. in_range d2 p \<and> p < s \<and> transition d2 p a = Some s"
    proof (cases "s = n")
      case True
      then show ?thesis using edge lt rng2 Cons.prems(4) by blast
    next
      case False
      then have "in_range d s" using s rng2 by simp
      then obtain p a where "in_range d p \<and> p < s \<and> transition d p a = Some s"
        using Cons.prems(3) s unfolding rooted_def by blast
      then show ?thesis using keep rng2 by blast
    qed
  qed
  have n2: "in_range d2 n" using rng2 by simp
  have r: "well_formed d' \<and> rooted d' \<and> in_range d' state' \<and> alphabets d' = alphabets d2 \<and>
         initial_state d' = initial_state d2 \<and>
         (\<forall>s. in_range d2 s \<longrightarrow> in_range d' s) \<and>
         (\<forall>s. in_range d' s \<longrightarrow> in_range d2 s \<or> map_of pm' s \<noteq> None) \<and>
         (\<forall>s. map_of (AList.update n (take j pat) pm) s \<noteq> None \<longrightarrow> map_of pm' s \<noteq> None)"
    using Cons.IH[OF rest wf2 rooted2 n2] .
  have newkey: "map_of pm' n \<noteq> None" using r by (simp add: AList.update_conv')
  have oldkeys: "map_of pm' s \<noteq> None" if "map_of pm s \<noteq> None" for s
    using r that by (simp add: AList.update_conv')
  show ?case using r rng2 ini alp newkey oldkeys by metis
qed

lemma add_pattern_result:
  assumes "add_pattern d pat = Inr (d', pm1)"
    "well_formed d" "rooted d" "in_range d 0" "initial_state d = Some 0"
  shows "well_formed d' \<and> rooted d' \<and> in_range d' 0 \<and> initial_state d' = Some 0 \<and>
         alphabets d' = alphabets d \<and> map_of pm1 0 \<noteq> None \<and>
         (\<forall>s. in_range d s \<longrightarrow> in_range d' s) \<and>
         (\<forall>s. in_range d' s \<longrightarrow> in_range d s \<or> map_of pm1 s \<noteq> None)"
proof -
  obtain i state ns where f: "follow_existing d 0 0 None pat = (i, state, ns)"
    by (cases "follow_existing d 0 0 None pat") auto
  have st: "in_range d state" using follow_existing_in_range[OF f assms(2,4)] .
  show ?thesis
  proof (cases ns)
    case None
    then obtain d1 state1 pm where
      c: "create_states pat d state [(0, [])] [i ..< length pat] = Inr (d1, state1, pm)"
      and d': "d' = d1" and pm1: "pm1 = AList.update state1 (take (length pat - 1 + 1) pat) pm"
      using assms(1,5) f
      by (auto simp: add_pattern_def split: sum.splits if_splits)
    have r: "well_formed d1 \<and> rooted d1 \<and> in_range d1 state1 \<and> alphabets d1 = alphabets d \<and>
         initial_state d1 = initial_state d \<and>
         (\<forall>s. in_range d s \<longrightarrow> in_range d1 s) \<and>
         (\<forall>s. in_range d1 s \<longrightarrow> in_range d s \<or> map_of pm s \<noteq> None) \<and>
         (\<forall>s. map_of [(0::int, []::string)] s \<noteq> None \<longrightarrow> map_of pm s \<noteq> None)"
      using create_states_result[OF c assms(2,3) st] .
    have keys: "map_of pm1 s \<noteq> None" if "map_of pm s \<noteq> None" for s
      using that pm1 by (simp add: AList.update_conv')
    have "map_of pm 0 \<noteq> None" using r by simp
    then show ?thesis using r d' keys assms(4,5) by metis
  next
    case (Some new_state)
    then have "(d' = d \<or> (\<exists>X. d' = d\<lparr>accepting_states := X\<rparr>)) \<and> pm1 = [(0, [])]"
      using assms(1,5) f
      by (auto simp: add_pattern_def set_accepting_def split: sum.splits if_splits)
    then show ?thesis using assms(2-5) by (auto simp: accepting_states_update_simps)
  qed
qed

lemma add_patterns_result:
  assumes "add_patterns d pm pats = Inr (d', pm')"
    "well_formed d" "rooted d" "in_range d 0" "initial_state d = Some 0"
    "\<forall>s. in_range d s \<and> s \<noteq> 0 \<longrightarrow> map_of pm s \<noteq> None"
  shows "well_formed d' \<and> rooted d' \<and> in_range d' 0 \<and> initial_state d' = Some 0 \<and>
         alphabets d' = alphabets d \<and>
         (\<forall>s. in_range d' s \<and> s \<noteq> 0 \<longrightarrow> map_of pm' s \<noteq> None) \<and>
         (pats \<noteq> [] \<or> map_of pm 0 \<noteq> None \<longrightarrow> map_of pm' 0 \<noteq> None)"
  using assms
proof (induction pats arbitrary: d pm)
  case Nil
  then show ?case by simp
next
  case (Cons pat pats)
  from Cons.prems(1) obtain d1 pm1 where
    a: "add_pattern d pat = Inr (d1, pm1)"
    and rest: "add_patterns d1 (fold (\<lambda>(k, v). AList.update k v) pm1 pm) pats = Inr (d', pm')"
    by (auto split: sum.splits)
  let ?pm = "fold (\<lambda>(k, v). AList.update k v) pm1 pm"
  have r1: "well_formed d1 \<and> rooted d1 \<and> in_range d1 0 \<and> initial_state d1 = Some 0 \<and>
         alphabets d1 = alphabets d \<and> map_of pm1 0 \<noteq> None \<and>
         (\<forall>s. in_range d s \<longrightarrow> in_range d1 s) \<and>
         (\<forall>s. in_range d1 s \<longrightarrow> in_range d s \<or> map_of pm1 s \<noteq> None)"
    using add_pattern_result[OF a Cons.prems(2-5)] .
  have key: "map_of ?pm s \<noteq> None \<longleftrightarrow> map_of pm s \<noteq> None \<or> map_of pm1 s \<noteq> None" for s
    using map_of_fold_update[of pm1 pm s] by (auto simp: map_of_eq_None_iff)
  have cover: "\<forall>s. in_range d1 s \<and> s \<noteq> 0 \<longrightarrow> map_of ?pm s \<noteq> None"
    using r1 Cons.prems(6) key by blast
  have zero: "map_of ?pm 0 \<noteq> None" using r1 key by blast
  have "well_formed d' \<and> rooted d' \<and> in_range d' 0 \<and> initial_state d' = Some 0 \<and>
         alphabets d' = alphabets d1 \<and>
         (\<forall>s. in_range d' s \<and> s \<noteq> 0 \<longrightarrow> map_of pm' s \<noteq> None) \<and>
         (pats \<noteq> [] \<or> map_of ?pm 0 \<noteq> None \<longrightarrow> map_of pm' 0 \<noteq> None)"
    using Cons.IH[OF rest] r1 cover by blast
  then show ?case using r1 zero by simp
qed

lemma initialize_root_result:
  assumes "initialize_root d al = Inr d'" "well_formed d"
  shows "well_formed d' \<and> extends d d' \<and> (\<forall>a \<in> set al. transition d' 0 a \<noteq> None)"
  using assms
proof (induction al arbitrary: d)
  case Nil
  then show ?case by (simp add: extends_refl)
next
  case (Cons a al)
  show ?case
  proof (cases "transition d 0 a")
    case (Some t)
    then have rest: "initialize_root d al = Inr d'" using Cons.prems(1) by simp
    show ?thesis using Cons.IH[OF rest Cons.prems(2)] Some by (auto simp: extends_def)
  next
    case None
    then obtain d1 where tr: "add_transition d 0 a 0 FAILURE = (None, d1)"
      and rest: "initialize_root d1 al = Inr d'"
      using Cons.prems(1) by (auto split: prod.splits option.splits)
    have wf1: "well_formed d1" using add_transition_well_formed[OF Cons.prems(2) tr] .
    have "transition d1 0 a = Some 0" using transition_add_transition[OF tr, of 0 a] by simp
    then show ?thesis
      using Cons.IH[OF rest wf1] add_transition_extends[OF tr]
      by (auto simp: extends_def)
  qed
qed

lemma AC_initialize_dfa_result:
  assumes "AC_initialize_dfa compute al pats = Inr (d, pm)"
  shows "well_formed d \<and> rooted d \<and> in_range d 0 \<and> initial_state d = Some 0 \<and>
         alphabets d = set al \<and>
         (\<forall>s. in_range d s \<and> s \<noteq> 0 \<longrightarrow> map_of pm s \<noteq> None) \<and>
         (pats \<noteq> [] \<longrightarrow> map_of pm 0 \<noteq> None) \<and>
         (compute \<longrightarrow> (\<forall>a \<in> set al. transition d 0 a \<noteq> None))"
proof -
  from assms obtain m d0 d1 where
    a0: "add_state (DFA_init (set al)) False True = (Inr m, d0)"
    and a1: "add_patterns d0 [] pats = Inr (d1, pm)"
    and a2: "(if compute then initialize_root d1 al else Inr d1) = Inr d"
    by (auto simp: AC_initialize_dfa_def split: prod.splits sum.splits)
  have wf0: "well_formed d0" using add_state_well_formed[OF well_formed_DFA_init a0] .
  have d0: "states d0 = Some 0" "alphabets d0 = set al" "initial_state d0 = Some 0"
    using a0 by (auto simp: add_state_def DFA_init_def truthy_def Let_def)
  have rng0: "in_range d0 s \<longleftrightarrow> s = 0" for s using d0(1) by (auto simp: in_range_def)
  have root0: "rooted d0" by (simp add: rooted_def rng0)
  have r1: "well_formed d1 \<and> rooted d1 \<and> in_range d1 0 \<and> initial_state d1 = Some 0 \<and>
         alphabets d1 = alphabets d0 \<and>
         (\<forall>s. in_range d1 s \<and> s \<noteq> 0 \<longrightarrow> map_of pm s \<noteq> None) \<and>
         (pats \<noteq> [] \<or> map_of [] (0::int) \<noteq> (None :: string option) \<longrightarrow> map_of pm 0 \<noteq> None)"
    using add_patterns_result[OF a1 wf0 root0 _ d0(3)] rng0 by simp
  show ?thesis
  proof (cases compute)
    case False
    then show ?thesis using a2 r1 d0 by simp
  next
    case True
    then have "initialize_root d1 al = Inr d" using a2 by simp
    from initialize_root_result[OF this] r1
    have r: "well_formed d \<and> extends d1 d \<and> (\<forall>a \<in> set al. transition d 0 a \<noteq> None)" by simp
    then have "rooted d" using extends_rooted r1 by blast
    moreover have "\<forall>s. in_range d s = in_range d1 s" using r extends_in_range by blast
    ultimately show ?thesis using r r1 d0 by (simp add: extends_def)
  qed
qed

section \<open>The breadth-first traversal reaches every state of the trie\<close>

lemma enqueue_unvisited_facts:
  "set q \<subseteq> set (fst (enqueue_unvisited c row (q, v))) \<and>
   v \<subseteq> snd (enqueue_unvisited c row (q, v)) \<and>
   snd (enqueue_unvisited c row (q, v)) \<subseteq> v \<union> set (fst (enqueue_unvisited c row (q, v))) \<and>
   (\<forall>(a, t) \<in> set row. (c, a, t) \<in> snd (enqueue_unvisited c row (q, v)))"
proof (induction row arbitrary: q v)
  case Nil
  then show ?case by simp
next
  case (Cons x row)
  obtain a t where x: "x = (a, t)" by (cases x)
  show ?case
  proof (cases "(c, a, t) \<in> v")
    case True
    then show ?thesis using Cons[of q v] x by auto
  next
    case False
    then show ?thesis using Cons[of "q @ [(c, a, t)]" "insert (c, a, t) v"] x by auto
  qed
qed

lemma explore_facts:
  "set (fst qv) \<subseteq> set (fst (explore d e qv)) \<and>
   snd qv \<subseteq> snd (explore d e qv) \<and>
   snd (explore d e qv) \<subseteq> snd qv \<union> set (fst (explore d e qv)) \<and>
   (\<forall>row. map_of (transitions d) (snd (snd e)) = Some row \<longrightarrow>
      (\<forall>(a, t) \<in> set row. (snd (snd e), a, t) \<in> snd (explore d e qv)))"
proof (cases qv)
  case (Pair q v)
  show ?thesis
  proof (cases "map_of (transitions d) (snd (snd e))")
    case None
    then show ?thesis using Pair by (simp add: explore_def)
  next
    case (Some row)
    then show ?thesis
      using Pair enqueue_unvisited_facts[of q "snd (snd e)" row v] by (simp add: explore_def)
  qed
qed

lemma bfs_loop_yields_queue: "set (fst qv) \<subseteq> set (bfs_loop d qv)"
proof (induction d qv rule: bfs_loop.induct)
  case (1 d queue visited)
  show ?case
  proof (cases queue)
    case Nil
    then show ?thesis by simp
  next
    case (Cons e rest)
    have "set rest \<subseteq> set (fst (explore d e (rest, visited)))"
      using explore_facts[of "(rest, visited)" d e] by simp
    then show ?thesis using "1"[OF Cons] Cons by (auto simp: bfs_loop.simps)
  qed
qed

lemma bfs_loop_closed:
  assumes "e \<in> set (bfs_loop d qv)" "map_of (transitions d) (snd (snd e)) = Some row"
    "(a, t) \<in> set row"
  shows "(snd (snd e), a, t) \<in> snd qv \<union> set (bfs_loop d qv)"
  using assms
proof (induction d qv rule: bfs_loop.induct)
  case (1 d queue visited)
  note prems = "1.prems"
  show ?case
  proof (cases queue)
    case Nil
    then show ?thesis using prems by (simp add: bfs_loop.simps)
  next
    case (Cons e0 rest)
    let ?qv = "explore d e0 (rest, visited)"
    note ex = explore_facts[of "(rest, visited)" d e0]
    have unfold: "bfs_loop d (queue, visited) = e0 # bfs_loop d ?qv" using Cons by (simp add: bfs_loop.simps)
    have later: "snd ?qv \<subseteq> visited \<union> set (bfs_loop d ?qv)"
      using ex bfs_loop_yields_queue[of ?qv d] by auto
    show ?thesis
    proof (cases "e = e0")
      case True
      then have "(snd (snd e), a, t) \<in> snd ?qv" using ex prems(2,3) by auto
      then show ?thesis using later unfold by auto
    next
      case False
      then have mem: "e \<in> set (bfs_loop d ?qv)" using prems(1) unfold by simp
      have "(snd (snd e), a, t) \<in> snd ?qv \<union> set (bfs_loop d ?qv)"
        using "1.IH"[OF Cons mem prems(2,3)] .
      then show ?thesis using later unfold by auto
    qed
  qed
qed

lemma bfs_traverse_reaches:
  assumes bfs: "bfs_traverse d = Inr edges" and ini: "initial_state d = Some 0"
    and root: "rooted d"
  shows "in_range d s \<Longrightarrow> s \<noteq> 0 \<Longrightarrow> \<exists>p a. (p, a, s) \<in> set edges"
proof (induction "nat s" arbitrary: s rule: less_induct)
  case less
  from bfs ini obtain row0 where row0: "map_of (transitions d) 0 = Some row0"
    and edges: "edges = bfs_loop d
        (map (\<lambda>(chr, s). (0, chr, s)) (filter (\<lambda>(chr, s). s \<noteq> 0) row0),
         set (map (\<lambda>(chr, s). (0, chr, s)) (filter (\<lambda>(chr, s). s \<noteq> 0) row0)))"
    by (auto simp: bfs_traverse_def Let_def split: option.splits)
  let ?first = "map (\<lambda>(chr, s). (0::int, chr, s)) (filter (\<lambda>(chr, s). s \<noteq> 0) row0)"
  have first: "set ?first \<subseteq> set edges"
    using bfs_loop_yields_queue[of "(?first, set ?first)" d] edges by simp
  from root less.prems obtain p a where p: "in_range d p" "p < s" "transition d p a = Some s"
    unfolding rooted_def by blast
  then obtain row where row: "map_of (transitions d) p = Some row" "(a, s) \<in> set row"
    by (auto simp: transition_def split: option.splits dest: map_of_SomeD)
  show ?case
  proof (cases "p = 0")
    case True
    then have "(0, a, s) \<in> set ?first" using row row0 less.prems(2) by force
    then show ?thesis using first by blast
  next
    case False
    have "0 \<le> p" using p(1) by (auto simp: in_range_def split: option.splits)
    then have "nat p < nat s" using p(2) by simp
    then obtain pp a' where "(pp, a', p) \<in> set edges"
      using less.hyps[of p] p(1) False by blast
    then have "(p, a, s) \<in> set ?first \<union> set edges"
      using bfs_loop_closed[of "(pp, a', p)" d "(?first, set ?first)" row a s] row edges
      by simp
    then show ?thesis using first by blast
  qed
qed

section \<open>The multi-pattern builder\<close>

lemma initialize_top_level_result:
  assumes "initialize_top_level symb index d al = Inr d'" "well_formed d"
  shows "well_formed d' \<and> extends d d' \<and> (\<forall>a \<in> set al. transition d' index a \<noteq> None)"
  using assms
proof (induction al arbitrary: d)
  case Nil
  then show ?case by (simp add: extends_refl)
next
  case (Cons a al)
  show ?case
  proof (cases "truthy (transition d index a)")
    case True
    then have rest: "initialize_top_level symb index d al = Inr d'" using Cons.prems(1) by simp
    have "transition d index a \<noteq> None" using True by (auto simp: truthy_def split: option.splits)
    then show ?thesis using Cons.IH[OF rest Cons.prems(2)] by (auto simp: extends_def)
  next
    case False
    then obtain d1 where
      tr: "add_transition d index a (if symb = a then index else 0) FAILURE = (None, d1)"
      and rest: "initialize_top_level symb index d1 al = Inr d'"
      using Cons.prems(1) by (auto split: prod.splits option.splits)
    have wf1: "well_formed d1" using add_transition_well_formed[OF Cons.prems(2) tr] .
    have "transition d1 index a \<noteq> None"
      using transition_add_transition[OF tr, of index a] by simp
    then show ?thesis
      using Cons.IH[OF rest wf1] add_transition_extends[OF tr]
      by (auto simp: extends_def)
  qed
qed

lemma precompute_possible_transitions_result:
  assumes "precompute_possible_transitions d index al ff = Inr d'" "well_formed d"
  shows "well_formed d' \<and> extends d d' \<and> (\<forall>a \<in> set al. transition d' index a \<noteq> None)"
  using assms
proof (induction al arbitrary: d)
  case Nil
  then show ?case by (simp add: extends_refl)
next
  case (Cons a al)
  show ?case
  proof (cases "transition d index a")
    case (Some t)
    then have rest: "precompute_possible_transitions d index al ff = Inr d'"
      using Cons.prems(1) by simp
    show ?thesis using Cons.IH[OF rest Cons.prems(2)] Some by (auto simp: extends_def)
  next
    case None
    then obtain to_state d1 where
      tr: "add_transition d index a to_state FAILURE = (None, d1)"
      and rest: "precompute_possible_transitions d1 index al ff = Inr d'"
      using Cons.prems(1) by (auto split: prod.splits option.splits sum.splits)
    have wf1: "well_formed d1" using add_transition_well_formed[OF Cons.prems(2) tr] .
    have "transition d1 index a \<noteq> None"
      using transition_add_transition[OF tr, of index a] by simp
    then show ?thesis
      using Cons.IH[OF rest wf1] add_transition_extends[OF tr]
      by (auto simp: extends_def)
  qed
qed

lemma ac_fail_loop_result:
  assumes "ac_fail_loop compute al d ff edges = Inr (d', ff')" "well_formed d"
  shows "well_formed d' \<and> extends d d' \<and>
         (compute \<longrightarrow> (\<forall>(p, a, c) \<in> set edges. \<forall>x \<in> set al. transition d' c x \<noteq> None))"
  using assms
proof (induction edges arbitrary: d ff)
  case Nil
  then show ?case by (simp add: extends_refl)
next
  case (Cons e edges)
  obtain parent symb index where e: "e = (parent, symb, index)" by (cases e)
  have "\<exists>d1 ff1. ac_fail_loop compute al d1 ff1 edges = Inr (d', ff') \<and>
          well_formed d1 \<and> extends d d1 \<and>
          (compute \<longrightarrow> (\<forall>x \<in> set al. transition d1 index x \<noteq> None))"
  proof (cases "parent = 0")
    case True
    then obtain d1 where
      top: "(if compute then initialize_top_level symb index d al else Inr d) = Inr d1"
      and rest: "ac_fail_loop compute al d1 ff edges = Inr (d', ff')"
      using Cons.prems(1) e by (auto split: sum.splits)
    have "well_formed d1 \<and> extends d d1 \<and>
          (compute \<longrightarrow> (\<forall>x \<in> set al. transition d1 index x \<noteq> None))"
      using top initialize_top_level_result[of symb index d al d1] Cons.prems(2)
      by (auto simp: extends_refl split: if_splits)
    then show ?thesis using rest by blast
  next
    case False
    then obtain ff1 d1 where
      pre: "(if compute then precompute_possible_transitions d index al ff1 else Inr d) = Inr d1"
      and rest: "ac_fail_loop compute al d1 ff1 edges = Inr (d', ff')"
      using Cons.prems(1) e by (auto split: sum.splits)
    have "well_formed d1 \<and> extends d d1 \<and>
          (compute \<longrightarrow> (\<forall>x \<in> set al. transition d1 index x \<noteq> None))"
      using pre precompute_possible_transitions_result[of d index al ff1 d1] Cons.prems(2)
      by (auto simp: extends_refl split: if_splits)
    then show ?thesis using rest by blast
  qed
  then obtain d1 ff1 where rest: "ac_fail_loop compute al d1 ff1 edges = Inr (d', ff')"
    and d1: "well_formed d1" "extends d d1"
      "compute \<longrightarrow> (\<forall>x \<in> set al. transition d1 index x \<noteq> None)"
    by blast
  have r: "well_formed d' \<and> extends d1 d' \<and>
         (compute \<longrightarrow> (\<forall>(p, a, c) \<in> set edges. \<forall>x \<in> set al. transition d' c x \<noteq> None))"
    using Cons.IH[OF rest d1(1)] .
  have "transition d' index x \<noteq> None" if "compute" "x \<in> set al" for x
  proof -
    have "transition d1 index x \<noteq> None" using d1(3) that by blast
    then obtain t where "transition d1 index x = Some t" by blast
    then show ?thesis using r by (auto simp: extends_def)
  qed
  then show ?case using r d1 e extends_trans by auto
qed

lemma AhoCorasickMatcher_init_result:
  assumes "AhoCorasickMatcher_init al pats compute = Inr m"
  shows "well_formed (dfa m)" "alphabets (dfa m) = set al" "compute_transitions m = compute"
    "in_range (dfa m) 0" "\<And>s. in_range (dfa m) s \<Longrightarrow> map_of (pattern_map m) s \<noteq> None"
    "compute \<Longrightarrow> complete (dfa m)"
proof -
  from assms obtain d pm edges d1 ff where
    ne: "pats \<noteq> []"
    and a0: "AC_initialize_dfa compute al pats = Inr (d, pm)"
    and a1: "bfs_traverse d = Inr edges"
    and a2: "ac_fail_loop compute al d (replicate (nat (n_states d)) 0) edges = Inr (d1, ff)"
    and m: "m = \<lparr> compute_transitions = compute, fail_functions = ff, dfa = d1,
                  pattern_map = pm \<rparr>"
    by (auto simp: AhoCorasickMatcher_init_def split: sum.splits if_splits)
  have i: "well_formed d" "rooted d" "in_range d 0" "initial_state d = Some 0"
    "alphabets d = set al" "\<forall>s. in_range d s \<and> s \<noteq> 0 \<longrightarrow> map_of pm s \<noteq> None"
    "map_of pm 0 \<noteq> None" "compute \<longrightarrow> (\<forall>a \<in> set al. transition d 0 a \<noteq> None)"
    using AC_initialize_dfa_result[OF a0] ne by simp_all
  have l: "well_formed d1 \<and> extends d d1 \<and>
         (compute \<longrightarrow> (\<forall>(p, a, c) \<in> set edges. \<forall>x \<in> set al. transition d1 c x \<noteq> None))"
    using ac_fail_loop_result[OF a2 i(1)] .
  have rng: "in_range d1 s = in_range d s" for s using l extends_in_range by blast
  show "well_formed (dfa m)" using l m by simp
  show "alphabets (dfa m) = set al" using l i m by (simp add: extends_def)
  show "compute_transitions m = compute" using m by simp
  show "in_range (dfa m) 0" using rng i m by simp
  show "map_of (pattern_map m) s \<noteq> None" if "in_range (dfa m) s" for s
    using that rng i(6,7) m by (cases "s = 0") auto
  show "complete (dfa m)" if c: compute
    unfolding complete_def
  proof (intro allI impI)
    fix s a
    assume h: "in_range (dfa m) s \<and> a \<in> alphabets (dfa m)"
    then have a: "a \<in> set al" using l i m by (simp add: extends_def)
    have s: "in_range d s" using h rng m by simp
    show "transition (dfa m) s a \<noteq> None"
    proof (cases "s = 0")
      case True
      have "transition d 0 a \<noteq> None" using i(8) c a by blast
      then obtain t where "transition d 0 a = Some t" by blast
      then show ?thesis using l m True by (auto simp: extends_def)
    next
      case False
      then obtain p x where "(p, x, s) \<in> set edges"
        using bfs_traverse_reaches[OF a1 i(4) i(2) s] by blast
      then show ?thesis using l c a m by auto
    qed
  qed
qed

section \<open>The precomputed walk of a complete automaton\<close>

lemma direct_walk_complete:
  assumes "complete d" "well_formed d" "in_range d state" "set s \<subseteq> alphabets d"
    and rep: "\<And>i t. in_range d t \<Longrightarrow> \<exists>y. report i t = Inr y"
  shows "snd (direct_walk report d state index s) = Returns"
  using assms(3,4)
proof (induction s arbitrary: state index)
  case Nil
  then show ?case by simp
next
  case (Cons symb s)
  have "transition d state symb \<noteq> None"
    using assms(1) Cons.prems unfolding complete_def by simp
  then obtain t where t: "transition d state symb = Some t" by blast
  then have rng: "in_range d t" using well_formed_transition[OF assms(2)] by blast
  then have acc: "is_accepting_state d t = Inr (t \<in> accepting_states d)"
    by (auto simp: is_accepting_state_def in_range_def split: option.splits)
  obtain y where y: "report index t = Inr y" using rep[OF rng] by blast
  have ih: "snd (direct_walk report d t (index + 1) s) = Returns"
    using Cons.IH[OF rng] Cons.prems(2) by simp
  show ?case using t acc y ih
    by (cases "t \<in> accepting_states d"; cases "direct_walk report d t (index + 1) s") simp_all
qed

section \<open>An on-the-fly search that does not return\<close>

text \<open>
  When \<open>fail_functions[i] = i\<close> for an index \<open>i > 0\<close> and the state \<open>i\<close> has no transition on
  the symbol read, the loop that follows the fail functions assigns \<open>i\<close> to itself for
  ever.  The on-the-fly matcher for the pattern \<open>AABA\<close> reaches this loop on the fifth
  symbol of \<open>AABAB\<close>, after it has yielded the match at 0.
\<close>

lemma follow_fail_stuck:
  assumes "py_index ff i = Inr i" "0 < i" "or0 (transition d i a) = 0"
  shows "follow_fail d ff a i = None"
proof -
  have "\<not> (py_index ff' i' = Inr i' \<and> 0 < i' \<and> or0 (transition d' i' a') = 0)"
    if "follow_fail d' ff' a' i' = Some y" for d' ff' a' i' y
  proof (rule follow_fail.raw_induct
      [where P = "\<lambda>d ff a i y. \<not> (py_index ff i = Inr i \<and> 0 < i \<and> or0 (transition d i a) = 0)",
       OF _ that], goal_cases)
    case (1 f d ff a i y)
    show ?case
    proof
      assume stuck: "py_index ff i = Inr i \<and> 0 < i \<and> or0 (transition d i a) = 0"
      then have "f d ff a i = Some y" using 1(2) by (simp add: Let_def)
      then show False using 1(1) stuck by blast
    qed
  qed
  then show ?thesis using assms by (cases "follow_fail d ff a i") auto
qed

lemma example_kmp_aaba_built:
  "KMPMatcher_init ''AB'' ''AABA'' False = Inr example_kmp_aaba"
  by code_simp

lemma example_kmp_aaba_value:
  "example_kmp_aaba =
     \<lparr> compute_transitions = False, fail_functions = [0, 1, 0, 1],
       dfa = \<lparr> states = Some 4, alphabets = {CHR ''A'', CHR ''B''},
               transitions =
                 [(0, [(CHR ''A'', 1)]), (1, [(CHR ''A'', 2)]), (2, [(CHR ''B'', 3)]),
                  (3, [(CHR ''A'', 4)])],
               transition_types =
                 [(0, [(CHR ''A'', SUCCESS)]), (1, [(CHR ''A'', SUCCESS)]),
                  (2, [(CHR ''B'', SUCCESS)]), (3, [(CHR ''A'', SUCCESS)])],
               initial_state = Some 1, accepting_states = {4} \<rparr>,
       pattern = Some ''AABA'' \<rparr>"
  by code_simp

lemma example_kmp_aaba_hangs:
  "KMPMatcher_search example_kmp_aaba ''AABABAABA'' = ([(0, ''AABA'')], Hangs, example_kmp_aaba)"
proof -
  let ?d = "dfa example_kmp_aaba"
  have "follow_fail ?d [0, 1, 0, 1] CHR ''B'' 1 = None"
    by (rule follow_fail_stuck)
       (simp_all add: example_kmp_aaba_value py_index_def py_position_def or0_def transition_def)
  then have loop: "follow_fail ?d [0, 1, 0, 1] CHR ''B'' 3 = None"
    by (subst follow_fail.simps)
       (simp add: example_kmp_aaba_value py_index_def py_position_def or0_def transition_def)
  show ?thesis
    unfolding KMPMatcher_search_def
    using loop
    by (simp add: example_kmp_aaba_value lazy_step_def transition_def is_accepting_state_def)
qed

lemma example_kmp_aa_value:
  "example_kmp_aa =
     \<lparr> compute_transitions = False, fail_functions = [0, 1],
       dfa = \<lparr> states = Some 2, alphabets = {CHR ''A'', CHR ''B''},
               transitions = [(0, [(CHR ''A'', 1)]), (1, [(CHR ''A'', 2)])],
               transition_types = [(0, [(CHR ''A'', SUCCESS)]), (1, [(CHR ''A'', SUCCESS)])],
               initial_state = Some 1, accepting_states = {2} \<rparr>,
       pattern = Some ''AA'' \<rparr>"
  by code_simp

lemma example_kmp_aa_searched_value:
  "example_kmp_aa_searched =
     \<lparr> compute_transitions = False, fail_functions = [0, 1],
       dfa = \<lparr> states = Some 2, alphabets = {CHR ''A'', CHR ''B''},
               transitions = [(0, [(CHR ''A'', 1), (CHR ''B'', 0)]), (1, [(CHR ''A'', 2)])],
               transition_types =
                 [(0, [(CHR ''A'', SUCCESS), (CHR ''B'', FAILURE)]), (1, [(CHR ''A'', SUCCESS)])],
               initial_state = Some 1, accepting_states = {2} \<rparr>,
       pattern = Some ''AA'' \<rparr>"
  by code_simp

text \<open>
  The on-the-fly search of \<open>BAAB\<close> for the pattern \<open>AA\<close>: the first symbol is resolved by
  the fail functions and cached, the third completes a match, and the loop at the fourth
  does not terminate.
\<close>

lemma example_kmp_aa_hangs:
  "KMPMatcher_search example_kmp_aa ''BAAB'' = ([(1, ''AA'')], Hangs, example_kmp_aa_searched)"
proof -
  let ?d = "dfa example_kmp_aa"
  let ?d1 = "dfa example_kmp_aa_searched"
  have first: "lazy_step ?d [0, 1] 0 CHR ''B'' = Some (Inr 0, ?d1)"
    by code_simp
  have second: "lazy_step ?d1 [0, 1] 0 CHR ''A'' = Some (Inr 1, ?d1)"
    by code_simp
  have third: "lazy_step ?d1 [0, 1] 1 CHR ''A'' = Some (Inr 2, ?d1)"
    by code_simp
  have "follow_fail ?d1 [0, 1] CHR ''B'' 1 = None"
    by (rule follow_fail_stuck)
       (simp_all add: example_kmp_aa_searched_value py_index_def py_position_def or0_def
          transition_def)
  moreover have "transition ?d1 2 CHR ''B'' = None" by code_simp
  ultimately have fourth: "lazy_step ?d1 [0, 1] 2 CHR ''B'' = None"
    by (simp add: lazy_step_def)
  have acc: "is_accepting_state ?d1 0 = Inr False" "is_accepting_state ?d1 1 = Inr False"
    "is_accepting_state ?d1 2 = Inr True"
    by code_simp+
  have ff: "fail_functions example_kmp_aa = [0, 1]" "pattern example_kmp_aa = Some ''AA''"
    "compute_transitions example_kmp_aa = False"
    by (simp_all add: example_kmp_aa_value)
  have upd: "example_kmp_aa\<lparr>dfa := ?d1\<rparr> = example_kmp_aa_searched"
    by (simp add: example_kmp_aa_value example_kmp_aa_searched_value)
  have "search_lazy_transition ?d [0, 1] ''AA'' 0 0 ''BAAB'' = ([(1, ''AA'')], Hangs, ?d1)"
    using first second third fourth acc by simp
  then show ?thesis
    using ff upd by (simp add: KMPMatcher_search_def)
qed

lemma on_the_fly_search_does_not_return:
  "kmp_build_and_search ''AB'' ''AABA'' False ''AABABAABA'' = Inr None \<and>
   kmp_build_and_search ''AB'' ''AABA'' True ''AABABAABA''
     = Inr (Some ([(0, ''AABA''), (5, ''AABA'')], None))"
proof
  show "kmp_build_and_search ''AB'' ''AABA'' False ''AABABAABA'' = Inr None"
    by (simp add: kmp_build_and_search_def example_kmp_aaba_built example_kmp_aaba_hangs
          observed_def)
  show "kmp_build_and_search ''AB'' ''AABA'' True ''AABABAABA''
          = Inr (Some ([(0, ''AABA''), (5, ''AABA'')], None))"
    by code_simp
qed

section \<open>Borders of the prefixes of a pattern\<close>

lemma filter_rev_upt_hd:
  "filter P (rev [0 ..< n]) = k # rest \<Longrightarrow> P k \<and> k < n \<and> (\<forall>k' < n. P k' \<longrightarrow> k' \<le> k)"
proof (induction n)
  case 0
  then show ?case by simp
next
  case (Suc n)
  then show ?case by (cases "P n") (auto simp: less_Suc_eq)
qed

lemma filter_rev_upt_Nil:
  "filter P (rev [0 ..< n]) = [] \<Longrightarrow> \<forall>k < n. \<not> P k"
  by (auto simp: filter_empty_conv)

lemma take_eq_drop_suffix:
  "k \<le> length w \<Longrightarrow> take k w = drop (length w - k) w \<longleftrightarrow> suffix (take k w) w"
proof
  assume "k \<le> length w" "take k w = drop (length w - k) w"
  then show "suffix (take k w) w" by (metis suffix_drop)
next
  assume k: "k \<le> length w" and s: "suffix (take k w) w"
  then obtain zs where w: "w = zs @ take k w" by (auto simp: suffix_def)
  then have "length zs = length w - k" using k
    by (metis add_diff_cancel_right' length_append length_take min.absorb2)
  then show "take k w = drop (length w - k) w" using w
    by (metis append_eq_conv_conj)
qed

lemma longest_border_greatest:
  assumes "w \<noteq> []"
  shows "longest_border w < length w" "suffix (take (longest_border w) w) w"
    "\<And>k. k < length w \<Longrightarrow> suffix (take k w) w \<Longrightarrow> k \<le> longest_border w"
proof -
  let ?P = "\<lambda>k. take k w = drop (length w - k) w"
  have P0: "?P 0" by simp
  have "filter ?P (rev [0 ..< length w]) \<noteq> []"
    using filter_rev_upt_Nil[of ?P "length w"] assms P0 by fastforce
  then obtain k rest where f: "filter ?P (rev [0 ..< length w]) = k # rest"
    by (cases "filter ?P (rev [0 ..< length w])") auto
  then have lb: "longest_border w = k" by (simp add: longest_border_def)
  note h = filter_rev_upt_hd[OF f]
  show "longest_border w < length w" using h lb by simp
  show "suffix (take (longest_border w) w) w"
    using h lb take_eq_drop_suffix[of k w] by simp
  show "k' \<le> longest_border w" if "k' < length w" "suffix (take k' w) w" for k'
    using h lb that take_eq_drop_suffix[of k' w] by simp
qed


lemma delta_set_finite: "finite {k. k \<le> length p \<and> suffix (take k p) (take j p @ [a])}"
  by simp

lemma delta_set_zero: "0 \<in> {k. k \<le> length p \<and> suffix (take k p) (take j p @ [a])}"
  by simp

lemma delta_set_Suc:
  assumes "j \<le> length p"
  shows "Suc k \<in> {k. k \<le> length p \<and> suffix (take k p) (take j p @ [a])}
     \<longleftrightarrow> Suc k \<le> length p \<and> k \<le> j \<and> suffix (take k p) (take j p) \<and> p ! k = a"
proof (cases "Suc k \<le> length p")
  case False
  then show ?thesis by simp
next
  case True
  then have t: "take (Suc k) p = take k p @ [p ! k]" by (simp add: take_Suc_conv_app_nth)
  have "suffix (take k p) (take j p) \<Longrightarrow> k \<le> j"
    using True assms by (auto dest!: suffix_length_le)
  then show ?thesis using True t by auto
qed

lemma border_of_border:
  assumes "j \<le> length p" "k < j" "suffix (take k p) (take j p)"
  shows "k \<le> longest_border (take j p)"
    "suffix (take k p) (take (longest_border (take j p)) p)"
proof -
  define w where "w = take j p"
  define b where "b = longest_border w"
  have ne: "w \<noteq> []" using assms by (auto simp: w_def)
  have len: "length w = j" using assms by (simp add: w_def)
  note g = longest_border_greatest[OF ne]
  have tk: "take k w = take k p" using assms(2) by (simp add: w_def min_def)
  have sk: "suffix (take k p) w" using assms(3) unfolding w_def .
  then have "suffix (take k w) w" by (simp only: tk)
  then have le: "k \<le> b" using g(3)[of k] assms(2) len unfolding b_def by simp
  have bj: "b < j" using g(1) len unfolding b_def by simp
  have tb: "take b w = take b p" using bj by (simp add: w_def min_def)
  have sb: "suffix (take b p) w" using g(2) unfolding b_def[symmetric] tb .
  have ll: "length (take k p) \<le> length (take b p)" using le bj assms(1) by simp
  show "k \<le> longest_border (take j p)" using le unfolding b_def w_def .
  show "suffix (take k p) (take (longest_border (take j p)) p)"
    using suffix_length_suffix[OF sk sb ll] unfolding b_def w_def .
qed

lemma longest_border_take:
  assumes "j \<le> length p" "1 \<le> j"
  shows "longest_border (take j p) < j"
    "suffix (take (longest_border (take j p)) p) (take j p)"
proof -
  have ne: "take j p \<noteq> []" using assms by auto
  note g = longest_border_greatest[OF ne]
  show "longest_border (take j p) < j" using g(1) assms by simp
  then show "suffix (take (longest_border (take j p)) p) (take j p)"
    using g(2) by (simp add: min_def)
qed

lemma kmp_delta_mismatch:
  assumes "1 \<le> j" "j \<le> length p" "j = length p \<or> p ! j \<noteq> a"
  shows "kmp_delta p j a = kmp_delta p (longest_border (take j p)) a"
proof -
  let ?b = "longest_border (take j p)"
  note lb = longest_border_take[OF assms(2,1)]
  have b: "?b \<le> length p" using lb(1) assms(2) by simp
  have "k \<in> {k. k \<le> length p \<and> suffix (take k p) (take j p @ [a])}
      \<longleftrightarrow> k \<in> {k. k \<le> length p \<and> suffix (take k p) (take ?b p @ [a])}" for k
  proof (cases k)
    case 0
    then show ?thesis by simp
  next
    case (Suc k')
    have "Suc k' \<le> length p \<and> k' \<le> j \<and> suffix (take k' p) (take j p) \<and> p ! k' = a
      \<longleftrightarrow> Suc k' \<le> length p \<and> k' \<le> ?b \<and> suffix (take k' p) (take ?b p) \<and> p ! k' = a"
    proof
      assume h: "Suc k' \<le> length p \<and> k' \<le> j \<and> suffix (take k' p) (take j p) \<and> p ! k' = a"
      then have "k' \<noteq> j" using assms(3) by auto
      then have "k' < j" using h by simp
      then show "Suc k' \<le> length p \<and> k' \<le> ?b \<and> suffix (take k' p) (take ?b p) \<and> p ! k' = a"
        using border_of_border[OF assms(2), of k'] h by simp
    next
      assume h: "Suc k' \<le> length p \<and> k' \<le> ?b \<and> suffix (take k' p) (take ?b p) \<and> p ! k' = a"
      then have "suffix (take k' p) (take j p)" using lb(2) suffix_order.trans by blast
      then show "Suc k' \<le> length p \<and> k' \<le> j \<and> suffix (take k' p) (take j p) \<and> p ! k' = a"
        using h lb(1) by simp
    qed
    then show ?thesis
      using delta_set_Suc[OF assms(2), of k' a] delta_set_Suc[OF b, of k' a] Suc by simp
  qed
  then have "{k. k \<le> length p \<and> suffix (take k p) (take j p @ [a])}
           = {k. k \<le> length p \<and> suffix (take k p) (take ?b p @ [a])}" by blast
  then show ?thesis by (simp add: kmp_delta_def)
qed

lemma longest_border_Suc:
  assumes "1 \<le> j" "j < length p"
  shows "longest_border (take (Suc j) p) = kmp_delta p (longest_border (take j p)) (p ! j)"
proof -
  let ?b = "longest_border (take j p)"
  let ?w = "take (Suc j) p"
  let ?B = "{k. k \<le> length p \<and> suffix (take k p) (take ?b p @ [p ! j])}"
  have jl: "j \<le> length p" using assms by simp
  note lb = longest_border_take[OF jl assms(1)]
  have b: "?b \<le> length p" using lb(1) assms(2) by simp
  have w: "?w = take j p @ [p ! j]" using assms by (simp add: take_Suc_conv_app_nth)
  have ne: "?w \<noteq> []" using w by simp
  have len: "length ?w = Suc j" using assms by simp
  note g = longest_border_greatest[OF ne]
  let ?m = "longest_border ?w"
  have mj: "?m \<le> j" using g(1) len by simp
  have tm: "take ?m ?w = take ?m p" using mj by (simp add: min_def)
  have in_B: "?m \<in> ?B"
  proof (cases ?m)
    case 0
    then show ?thesis by simp
  next
    case (Suc m')
    have "Suc m' \<in> {k. k \<le> length p \<and> suffix (take k p) (take j p @ [p ! j])}"
      using g(2) tm w Suc mj assms(2) by simp
    then have h: "suffix (take m' p) (take j p) \<and> p ! m' = p ! j"
      using delta_set_Suc[OF jl, of m' "p ! j"] by simp
    have "m' < j" using Suc mj by simp
    then have "m' \<le> ?b \<and> suffix (take m' p) (take ?b p)"
      using border_of_border[OF jl, of m'] h by simp
    then show ?thesis
      using delta_set_Suc[OF b, of m' "p ! j"] h Suc mj assms(2) by simp
  qed
  have upper: "k \<le> ?m" if "k \<in> ?B" for k
  proof (cases k)
    case 0
    then show ?thesis by simp
  next
    case (Suc k')
    then have h: "Suc k' \<le> length p \<and> k' \<le> ?b \<and> suffix (take k' p) (take ?b p) \<and> p ! k' = p ! j"
      using that delta_set_Suc[OF b, of k' "p ! j"] by simp
    then have "suffix (take k' p) (take j p)" using lb(2) suffix_order.trans by blast
    then have "Suc k' \<in> {k. k \<le> length p \<and> suffix (take k p) (take j p @ [p ! j])}"
      using delta_set_Suc[OF jl, of k' "p ! j"] h lb(1) by simp
    then have "suffix (take (Suc k') p) ?w" using w by simp
    moreover have "Suc k' < Suc j" using h lb(1) by simp
    moreover have "take (Suc k') ?w = take (Suc k') p" using h lb(1) by (simp add: min_def)
    ultimately show ?thesis using g(3)[of "Suc k'"] len Suc by simp
  qed
  have "Max ?B = ?m"
    by (rule Max_eqI) (use in_B upper in auto)
  then show ?thesis by (simp add: kmp_delta_def)
qed

lemma kmp_delta_match:
  assumes "j < length p"
  shows "kmp_delta p j (p ! j) = Suc j"
proof -
  let ?B = "{k. k \<le> length p \<and> suffix (take k p) (take j p @ [p ! j])}"
  have "Suc j \<in> ?B" using assms by (simp add: take_Suc_conv_app_nth)
  moreover have "k \<le> Suc j" if "k \<in> ?B" for k
  proof -
    have "length (take k p) \<le> length (take j p @ [p ! j])"
      using that by (auto dest: suffix_length_le simp del: length_take)
    then show ?thesis using that assms by simp
  qed
  ultimately have "Max ?B = Suc j" by (intro Max_eqI) auto
  then show ?thesis by (simp add: kmp_delta_def)
qed

lemma kmp_delta_0:
  assumes "p \<noteq> []"
  shows "kmp_delta p 0 a = (if a = p ! 0 then 1 else 0)"
proof (cases "a = p ! 0")
  case True
  then show ?thesis using kmp_delta_match[of 0 p] assms by simp
next
  case False
  let ?B = "{k. k \<le> length p \<and> suffix (take k p) (take 0 p @ [a])}"
  have "k = 0" if "k \<in> ?B" for k
  proof (cases k)
    case 0
    then show ?thesis .
  next
    case (Suc k')
    then show ?thesis using that delta_set_Suc[of 0 p k' a] False by auto
  qed
  then have "Max ?B = 0" by (intro Max_eqI) auto
  then show ?thesis using False by (simp add: kmp_delta_def)
qed

lemma kmp_delta_le: "kmp_delta p j a \<le> length p"
proof -
  let ?B = "{k. k \<le> length p \<and> suffix (take k p) (take j p @ [a])}"
  have "Max ?B \<in> ?B" by (rule Max_in) (use delta_set_zero in auto)
  then show ?thesis by (simp add: kmp_delta_def)
qed

lemma longest_border_single: "longest_border [c] = 0"
  using longest_border_greatest(1)[of "[c]"] by simp

section \<open>The fail functions of the precomputed single-pattern builder\<close>

lemma py_index_nat: "i < length xs \<Longrightarrow> py_index xs (int i) = Inr (xs ! i)"
  by (simp add: py_index_def py_position_def)

lemma py_setitem_nat: "i < length xs \<Longrightarrow> py_setitem xs (int i) v = Inr (xs[i := v])"
  by (simp add: py_setitem_def py_position_def)

lemma kmp_add_states_chain:
  assumes "kmp_add_states d (length p) (enumerate k xs) = Inr d'"
    and "states d = Some (int k)" and "p = pre @ xs" and "length pre = k"
    and "\<forall>s a. transition d s a = (if 0 \<le> s \<and> nat s < k \<and> a = p ! nat s then Some (s + 1) else None)"
    and "well_formed d"
  shows "(\<forall>s a. transition d' s a =
            (if 0 \<le> s \<and> nat s < length p \<and> a = p ! nat s then Some (s + 1) else None)) \<and>
         set xs \<subseteq> alphabets d'"
  using assms
proof (induction xs arbitrary: d k pre)
  case Nil
  then show ?case by simp
next
  case (Cons x xs)
  have kn: "k < length p" using Cons.prems(3,4) by simp
  have px: "p ! k = x" using Cons.prems(3,4) by (simp add: nth_append)
  from Cons.prems(1) kn obtain m d1 d2 where
    add: "add_state d (int k = int (length p) - 1) (k = 0) = (Inr m, d1)"
    and tr: "add_transition d1 (int k) x (int k + 1) SUCCESS = (None, d2)"
    and rest: "kmp_add_states d2 (length p) (enumerate (Suc k) xs) = Inr d'"
    by (auto split: prod.splits sum.splits option.splits)
  have st2: "states d2 = Some (int (Suc k))"
    using add_transition_frame(1)[OF tr] add_state_result(1,2)[OF add] Cons.prems(2)
    by (simp add: n_states_def)
  have tr2: "\<forall>s a. transition d2 s a =
       (if 0 \<le> s \<and> nat s < Suc k \<and> a = p ! nat s then Some (s + 1) else None)"
  proof (intro allI)
    fix s a
    have "transition d2 s a = (if s = int k \<and> a = x then Some (int k + 1) else transition d s a)"
      using transition_add_transition[OF tr, of s a] add_state_transition[OF add, of s a] by simp
    then show "transition d2 s a =
       (if 0 \<le> s \<and> nat s < Suc k \<and> a = p ! nat s then Some (s + 1) else None)"
      using Cons.prems(5) px by (auto simp: less_Suc_eq)
  qed
  have wf2: "well_formed d2"
    using add_transition_well_formed[OF add_state_well_formed[OF Cons.prems(6) add] tr] .
  have r: "(\<forall>s a. transition d' s a =
            (if 0 \<le> s \<and> nat s < length p \<and> a = p ! nat s then Some (s + 1) else None)) \<and>
         set xs \<subseteq> alphabets d'"
    using Cons.IH[OF rest st2, of "pre @ [x]"] Cons.prems(3,4) tr2 wf2 by simp
  have "x \<in> alphabets d2" using add_transition_frame(2,7)[OF tr] by simp
  moreover have "alphabets d' = alphabets d2"
    using kmp_add_states_result[OF rest wf2 st2] by simp
  ultimately show ?case using r by simp
qed

lemma kmp_init_state0_transitions:
  assumes "kmp_init_state0 d al = Inr d'"
  shows "transition d' s a =
           (if s = 0 \<and> a \<in> set al \<and> \<not> truthy (transition d 0 a) then Some 0
            else transition d s a)"
  using assms
proof (induction al arbitrary: d)
  case Nil
  then show ?case by simp
next
  case (Cons x al)
  show ?case
  proof (cases "truthy (transition d 0 x)")
    case True
    then have rest: "kmp_init_state0 d al = Inr d'" using Cons.prems by simp
    show ?thesis using Cons.IH[OF rest] True by auto
  next
    case False
    then obtain d1 where tr: "add_transition d 0 x 0 FAILURE = (None, d1)"
      and rest: "kmp_init_state0 d1 al = Inr d'"
      using Cons.prems by (auto split: prod.splits option.splits)
    note t1 = transition_add_transition[OF tr]
    show ?thesis using Cons.IH[OF rest] t1 False by (auto simp: truthy_def)
  qed
qed

lemma kmp_set_transitions_transitions:
  assumes "kmp_set_transitions d ff index al = Inr d'"
    and "py_index ff (int index - 1) = Inr f" and "f \<noteq> int index"
  shows "transition d' s a =
           (if s = int index \<and> a \<in> set al \<and> transition d (int index) a = None
            then Some (or0 (transition d f a)) else transition d s a)"
  using assms(1)
proof (induction al arbitrary: d)
  case Nil
  then show ?case by simp
next
  case (Cons x al)
  show ?case
  proof (cases "has_transition d (int index) x")
    case True
    then have rest: "kmp_set_transitions d ff index al = Inr d'" using Cons.prems by simp
    show ?thesis using Cons.IH[OF rest] True by (auto simp: has_transition_def)
  next
    case False
    then obtain d1 where
      tr: "add_transition d (int index) x (or0 (transition d f x)) FAILURE = (None, d1)"
      and rest: "kmp_set_transitions d1 ff index al = Inr d'"
      using Cons.prems assms(2) by (auto split: prod.splits option.splits)
    note t1 = transition_add_transition[OF tr]
    have same: "transition d1 f b = transition d f b" for b using t1 assms(3) by simp
    show ?thesis
      using Cons.IH[OF rest] t1 False same by (auto simp: has_transition_def)
  qed
qed

text \<open>The state of the loop of \<open>__init__\<close> before the iteration for \<open>index = i\<close>.\<close>

lemma kmp_fail_loop_invariant:
  assumes "kmp_fail_loop True al p d ff [i ..< length p + 1] = Inr (d', ff')"
    and "1 \<le> i" and "set p \<subseteq> set al" and "length ff = length p"
    and "\<forall>j a. j < i \<and> a \<in> set al \<longrightarrow> transition d (int j) a = Some (int (kmp_delta p j a))"
    and "\<forall>j a. i \<le> j \<longrightarrow>
           transition d (int j) a = (if j < length p \<and> a = p ! j then Some (int j + 1) else None)"
    and "\<forall>j. 1 \<le> j \<and> j \<le> i \<and> j \<le> length p \<longrightarrow> ff ! (j - 1) = int (longest_border (take j p))"
  shows "length ff' = length p \<and>
         (\<forall>j a. j \<le> length p \<and> a \<in> set al \<longrightarrow>
            transition d' (int j) a = Some (int (kmp_delta p j a))) \<and>
         (\<forall>j. 1 \<le> j \<and> j \<le> length p \<longrightarrow> ff' ! (j - 1) = int (longest_border (take j p)))"
  using assms
proof (induction "length p + 1 - i" arbitrary: i d ff)
  case 0
  then have "[i ..< length p + 1] = []" by simp
  then have "d' = d" "ff' = ff" using "0.prems"(1) by simp_all
  moreover have "length p < i" using "0.hyps" by simp
  ultimately show ?case using "0.prems" by simp
next
  case (Suc n)
  let ?n = "length p"
  have i: "i \<le> ?n" using Suc.hyps(2) by simp
  then have upt: "[i ..< ?n + 1] = i # [Suc i ..< ?n + 1]" by (simp add: upt_conv_Cons)
  let ?b = "longest_border (take i p)"
  have ffi: "ff ! (i - 1) = int ?b" using Suc.prems(2,7) i by simp
  have idx: "py_index ff (int i - 1) = Inr (int ?b)"
    using py_index_nat[of "i - 1" ff] Suc.prems(2,4) i ffi by (simp add: of_nat_diff)
  have b: "?b < i" using longest_border_take(1)[of i p] i Suc.prems(2) by simp
  from Suc.prems(1) upt obtain d1 where
    row: "kmp_set_transitions d ff i al = Inr d1"
    by (auto split: sum.splits)
  have t1: "transition d1 s a =
           (if s = int i \<and> a \<in> set al \<and> transition d (int i) a = None
            then Some (or0 (transition d (int ?b) a)) else transition d s a)" for s a
    using kmp_set_transitions_transitions[OF row idx] b by simp
  have low1: "transition d1 (int j) a = Some (int (kmp_delta p j a))"
    if "j < Suc i" "a \<in> set al" for j a
  proof (cases "j = i")
    case False
    then show ?thesis using t1[of "int j" a] Suc.prems(5) that by simp
  next
    case True
    show ?thesis
    proof (cases "i < ?n \<and> a = p ! i")
      case True
      then show ?thesis
        using t1[of "int i" a] Suc.prems(6) \<open>j = i\<close> kmp_delta_match[of i p] by simp
    next
      case False
      then have none: "transition d (int i) a = None" using Suc.prems(6) by simp
      have "transition d (int ?b) a = Some (int (kmp_delta p ?b a))"
        using Suc.prems(5) b that by simp
      moreover have "kmp_delta p i a = kmp_delta p ?b a"
        using kmp_delta_mismatch[of i p a] Suc.prems(2) i False by auto
      ultimately show ?thesis
        using t1[of "int i" a] none that \<open>j = i\<close> by (simp add: or0_def)
    qed
  qed
  have high1: "transition d1 (int j) a = (if j < ?n \<and> a = p ! j then Some (int j + 1) else None)"
    if "Suc i \<le> j" for j a
    using t1[of "int j" a] Suc.prems(6) that by simp
  show ?case
  proof (cases "i < ?n")
    case False
    then have rest: "kmp_fail_loop True al p d1 ff [Suc i ..< ?n + 1] = Inr (d', ff')"
      using Suc.prems(1) upt row by simp
    have ffs: "\<forall>j. 1 \<le> j \<and> j \<le> Suc i \<and> j \<le> ?n \<longrightarrow> ff ! (j - 1) = int (longest_border (take j p))"
      using Suc.prems(7) False i by auto
    show ?thesis
      using Suc.hyps(1)[of "Suc i" d1 ff, OF _ rest _ Suc.prems(3,4) _ _ ffs]
        Suc.hyps(2) low1 high1 by simp
  next
    case True
    have pi: "p ! i \<in> set al" using Suc.prems(3) True by auto
    have val: "or0 (transition d1 (int ?b) (p ! i)) = int (longest_border (take (Suc i) p))"
      using low1[of ?b "p ! i"] b pi longest_border_Suc[of i p] Suc.prems(2) True
      by (simp add: or0_def)
    have set: "py_setitem ff (int i) (or0 (transition d1 (int ?b) (p ! i)))
                 = Inr (ff[i := int (longest_border (take (Suc i) p))])"
      using py_setitem_nat[of i ff] True Suc.prems(4) val by simp
    let ?ff1 = "ff[i := int (longest_border (take (Suc i) p))]"
    have rest: "kmp_fail_loop True al p d1 ?ff1 [Suc i ..< ?n + 1] = Inr (d', ff')"
      using Suc.prems(1) upt row True idx set by simp
    have ffs: "\<forall>j. 1 \<le> j \<and> j \<le> Suc i \<and> j \<le> ?n \<longrightarrow> ?ff1 ! (j - 1) = int (longest_border (take j p))"
    proof (intro allI impI)
      fix j assume j: "1 \<le> j \<and> j \<le> Suc i \<and> j \<le> ?n"
      show "?ff1 ! (j - 1) = int (longest_border (take j p))"
      proof (cases "j = Suc i")
        case True
        then show ?thesis using \<open>i < ?n\<close> Suc.prems(4) by simp
      next
        case False
        then have "j - 1 \<noteq> i" "j \<le> i" using j by auto
        then show ?thesis using Suc.prems(7) j by simp
      qed
    qed
    have len: "length ?ff1 = ?n" using Suc.prems(4) by simp
    show ?thesis
      using Suc.hyps(1)[of "Suc i" d1 ?ff1, OF _ rest _ Suc.prems(3) len _ _ ffs]
        Suc.hyps(2) low1 high1 by simp
  qed
qed

lemma KMPMatcher_init_precomputed:
  assumes "KMPMatcher_init al pat True = Inr m"
  shows "fail_functions m = classical_fail_functions pat"
    and "\<And>j a. j \<le> length pat \<Longrightarrow> a \<in> set al \<Longrightarrow>
           transition (dfa m) (int j) a = Some (int (kmp_delta pat j a))"
proof -
  let ?n = "length pat"
  from assms obtain d d' ff where
    ne: "pat \<noteq> []"
    and a0: "KMP_initialize_dfa True al pat = Inr d"
    and a1: "kmp_fail_loop True al pat d (replicate ?n 0) [1 ..< ?n + 1] = Inr (d', ff)"
    and m: "m = \<lparr> compute_transitions = True, fail_functions = ff, dfa = d', pattern = Some pat \<rparr>"
    by (auto simp: KMPMatcher_init_def split: sum.splits if_splits)
  from a0 obtain k d0 d1 where
    b0: "add_state (DFA_init (set al)) (0 = ?n) True = (Inr k, d0)"
    and b1: "kmp_add_states d0 ?n (enumerate 0 pat) = Inr d1"
    and b2: "kmp_init_state0 d1 al = Inr d"
    by (auto simp: KMP_initialize_dfa_def split: prod.splits sum.splits)
  have wf0: "well_formed d0" using add_state_well_formed[OF well_formed_DFA_init b0] .
  have d0: "states d0 = Some 0" "alphabets d0 = set al" "transitions d0 = []"
    using b0 ne by (auto simp: add_state_def DFA_init_def truthy_def Let_def)
  have t0: "\<forall>s a. transition d0 s a =
              (if 0 \<le> s \<and> nat s < 0 \<and> a = pat ! nat s then Some (s + 1) else None)"
    using d0(3) by (simp add: transition_def)
  have chain: "(\<forall>s a. transition d1 s a =
            (if 0 \<le> s \<and> nat s < ?n \<and> a = pat ! nat s then Some (s + 1) else None)) \<and>
         set pat \<subseteq> alphabets d1"
    using kmp_add_states_chain[OF b1, of "[]"] d0(1) t0 wf0 by simp
  have "alphabets d1 = set al" using kmp_add_states_result[OF b1 wf0 d0(1)] d0(2) by simp
  then have sub: "set pat \<subseteq> set al" using chain by simp
  note t = kmp_init_state0_transitions[OF b2]
  have n: "0 < ?n" using ne by simp
  have low: "\<forall>j a. j < 1 \<and> a \<in> set al \<longrightarrow> transition d (int j) a = Some (int (kmp_delta pat j a))"
  proof (intro allI impI)
    fix j :: nat and a assume h: "j < 1 \<and> a \<in> set al"
    then have j: "j = 0" by simp
    have c1: "transition d1 0 (pat ! 0) = Some 1" using chain n by simp
    have c2: "x \<noteq> pat ! 0 \<Longrightarrow> transition d1 0 x = None" for x using chain n by simp
    have "transition d 0 a = (if a = pat ! 0 then Some 1 else Some 0)"
      using t[of 0 a] h c1 c2[of a] by (cases "a = pat ! 0") (simp_all add: truthy_def)
    then show "transition d (int j) a = Some (int (kmp_delta pat j a))"
      using j kmp_delta_0[OF ne, of a] by simp
  qed
  have high: "\<forall>j a. 1 \<le> j \<longrightarrow>
           transition d (int j) a = (if j < ?n \<and> a = pat ! j then Some (int j + 1) else None)"
    using t chain by simp
  have "take 1 pat = [pat ! 0]" using ne by (cases pat) auto
  then have ff0: "\<forall>j. 1 \<le> j \<and> j \<le> 1 \<and> j \<le> ?n \<longrightarrow>
           replicate ?n 0 ! (j - 1) = int (longest_border (take j pat))"
    using n longest_border_single by (auto simp: le_antisym)
  have r: "length ff = ?n \<and>
         (\<forall>j a. j \<le> ?n \<and> a \<in> set al \<longrightarrow>
            transition d' (int j) a = Some (int (kmp_delta pat j a))) \<and>
         (\<forall>j. 1 \<le> j \<and> j \<le> ?n \<longrightarrow> ff ! (j - 1) = int (longest_border (take j pat)))"
    using kmp_fail_loop_invariant[OF a1 _ sub _ low high ff0] by simp
  show "transition (dfa m) (int j) a = Some (int (kmp_delta pat j a))"
    if "j \<le> length pat" "a \<in> set al" for j a
    using r[THEN conjunct2, THEN conjunct1, rule_format, of j a] that m by simp
  have "ff = classical_fail_functions pat"
  proof (rule nth_equalityI)
    show "length ff = length (classical_fail_functions pat)"
      using r by (simp add: classical_fail_functions_def del: upt_Suc)
  next
    fix i assume "i < length ff"
    then have i: "i < ?n" using r by simp
    then have "ff ! i = int (longest_border (take (Suc i) pat))"
      using r[THEN conjunct2, THEN conjunct2, rule_format, of "Suc i"] by simp
    moreover have "classical_fail_functions pat ! i = int (longest_border (take (Suc i) pat))"
      using i unfolding classical_fail_functions_def by (simp del: upt_Suc)
    ultimately show "ff ! i = classical_fail_functions pat ! i" by simp
  qed
  then show "fail_functions m = classical_fail_functions pat" using m by simp
qed

section \<open>The claims\<close>

text \<open>
  C1 (the two modes produce the same matches).  The code does not do this.  For the
  pattern \<open>ABAA\<close> and the text \<open>ABAABAA\<close> the precomputed single-pattern search yields the
  matches at 0 and 3, the on-the-fly search only the one at 0.  For the patterns \<open>AA\<close>,
  \<open>B\<close> and the text \<open>AB\<close> the precomputed multi-pattern search yields nothing, the
  on-the-fly search yields \<open>B\<close> at 1.  Both iteration orders of the alphabet set are
  evaluated.
\<close>

theorem modes_disagree:
  "kmp_alphabet_set None ''ABAA'' = set ''AB'' \<and>
   alphabet_set_from_alphabets None [''AA'', ''B''] = set ''AB'' \<and>
   kmp_build_and_search ''AB'' ''ABAA'' True ''ABAABAA''
     = Inr (Some ([(0, ''ABAA''), (3, ''ABAA'')], None)) \<and>
   kmp_build_and_search ''BA'' ''ABAA'' True ''ABAABAA''
     = Inr (Some ([(0, ''ABAA''), (3, ''ABAA'')], None)) \<and>
   kmp_build_and_search ''AB'' ''ABAA'' False ''ABAABAA'' = Inr (Some ([(0, ''ABAA'')], None)) \<and>
   kmp_build_and_search ''BA'' ''ABAA'' False ''ABAABAA'' = Inr (Some ([(0, ''ABAA'')], None)) \<and>
   ac_build_and_search ''AB'' [''AA'', ''B''] True ''AB'' = Inr (Some ([], None)) \<and>
   ac_build_and_search ''BA'' [''AA'', ''B''] True ''AB'' = Inr (Some ([], None)) \<and>
   ac_build_and_search ''AB'' [''AA'', ''B''] False ''AB'' = Inr (Some ([(1, ''B'')], None)) \<and>
   ac_build_and_search ''BA'' [''AA'', ''B''] False ''AB'' = Inr (Some ([(1, ''B'')], None))"
  by code_simp

text \<open>
  C2 (the pattern map of an accepting state is the pattern completed there).  The code
  does not do this when a pattern is a proper prefix of one inserted before it: for the
  patterns \<open>ABA\<close>, \<open>AB\<close> the state 2, reached by \<open>AB\<close>, is accepting and keeps its
  bookkeeping entry \<open>A\<close>, and the search of the text \<open>AB\<close> reports \<open>A\<close> at position 1, where the
  text has \<open>B\<close>, in both modes.
\<close>

theorem prefix_pattern_reported_wrongly:
  "ac_accepting_patterns ''AB'' [''ABA'', ''AB''] True = Inr [(2, ''A''), (3, ''ABA'')] \<and>
   ac_accepting_patterns ''BA'' [''ABA'', ''AB''] True = Inr [(2, ''A''), (3, ''ABA'')] \<and>
   ac_accepting_patterns ''AB'' [''ABA'', ''AB''] False = Inr [(2, ''A''), (3, ''ABA'')] \<and>
   ac_accepting_patterns ''BA'' [''ABA'', ''AB''] False = Inr [(2, ''A''), (3, ''ABA'')] \<and>
   ac_build_and_search ''AB'' [''ABA'', ''AB''] True ''AB'' = Inr (Some ([(1, ''A'')], None)) \<and>
   ac_build_and_search ''BA'' [''ABA'', ''AB''] True ''AB'' = Inr (Some ([(1, ''A'')], None)) \<and>
   ac_build_and_search ''AB'' [''ABA'', ''AB''] False ''AB'' = Inr (Some ([(1, ''A'')], None)) \<and>
   ac_build_and_search ''BA'' [''ABA'', ''AB''] False ''AB'' = Inr (Some ([(1, ''A'')], None))"
  by code_simp

text \<open>
  C3 (the fail functions of the single-pattern builder are the classical prefix
  function, in both modes).  For the pattern \<open>ABAA\<close> the classical values are
  \<open>[0, 0, 1, 1]\<close>; the builder computes them with precomputation and computes
  \<open>[0, 0, 1, 0]\<close> without it.  With precomputation the builder computes the classical
  values for every pattern (lemma \<open>KMPMatcher_init_precomputed\<close>).
\<close>

theorem fail_functions_without_precomputation:
  "kmp_alphabet_set None ''ABAA'' = set ''AB'' \<and>
   classical_fail_functions ''ABAA'' = [0, 0, 1, 1] \<and>
   kmp_fail_functions ''AB'' ''ABAA'' False = Inr [0, 0, 1, 0] \<and>
   kmp_fail_functions ''BA'' ''ABAA'' False = Inr [0, 0, 1, 0] \<and>
   kmp_fail_functions ''AB'' ''ABAA'' True = Inr [0, 0, 1, 1] \<and>
   kmp_fail_functions ''BA'' ''ABAA'' True = Inr [0, 0, 1, 1]"
  by code_simp

text \<open>
  C4 (a saved and reloaded matcher searches like the original).  The code does not do
  this for the single-pattern record: the matcher built for the pattern \<open>A\<close> yields the
  match at 0 in the text \<open>A\<close>, the reloaded one raises \<open>AttributeError\<close> and yields nothing,
  in both modes.  The multi-pattern record for the same pattern and text gives the match
  back.
\<close>

theorem reloaded_kmp_matcher_raises:
  "kmp_build_and_search ''A'' ''A'' True ''A'' = Inr (Some ([(0, ''A'')], None)) \<and>
   build_load_search ''A'' [''A''] ''kmp'' True ''A'' = Inr (Some ([], Some AttributeError)) \<and>
   kmp_build_and_search ''A'' ''A'' False ''A'' = Inr (Some ([(0, ''A'')], None)) \<and>
   build_load_search ''A'' [''A''] ''kmp'' False ''A'' = Inr (Some ([], Some AttributeError)) \<and>
   ac_build_and_search ''A'' [''A''] True ''A'' = Inr (Some ([(0, ''A'')], None)) \<and>
   build_load_search ''A'' [''A''] ''aho-corasick'' True ''A'' = Inr (Some ([(0, ''A'')], None)) \<and>
   ac_build_and_search ''A'' [''A''] False ''A'' = Inr (Some ([(0, ''A'')], None)) \<and>
   build_load_search ''A'' [''A''] ''aho-corasick'' False ''A'' = Inr (Some ([(0, ''A'')], None))"
  by code_simp

text \<open>
  C5 (a second initial state is refused, also when the first is state 0).  \<open>add_state\<close>
  raises and keeps the initial state when the initial state is not 0; when the initial
  state is 0 the call returns the new state and makes it the initial state.
\<close>

theorem add_state_second_initial:
  "initial_state d = Some s \<Longrightarrow>
     (s \<noteq> 0 \<longrightarrow> fst (add_state d acc True) = Inl DuplicateInitialState
                 \<and> initial_state (snd (add_state d acc True)) = Some s) \<and>
     (s = 0 \<longrightarrow> fst (add_state d acc True) = Inr (n_states d)
                 \<and> initial_state (snd (add_state d acc True)) = Some (n_states d))"
  by (auto simp: add_state_def truthy_def n_states_def Let_def split: option.splits)

theorem add_state_second_initial_witness:
  "initial_state (snd (add_state (DFA_init {}) False True)) = Some 0 \<and>
   add_state (snd (add_state (DFA_init {}) False True)) False True
     = (Inr 1, \<lparr> states = Some 1, alphabets = {}, transitions = [], transition_types = [],
                 initial_state = Some 1, accepting_states = {} \<rparr>)"
proof -
  have i: "initial_state (snd (add_state (DFA_init {}) False True)) = Some 0"
    by (simp add: add_state_def DFA_init_def truthy_def)
  show ?thesis
    using i add_state_second_initial[OF i, of False]
    by (simp add: add_state_def DFA_init_def truthy_def n_states_def)
qed

text \<open>
  C7 (the overlap scenario).  For the patterns \<open>ABBAB\<close>, \<open>BABBA\<close> with the alphabet taken
  from them, in either mode and for either iteration order of the alphabet set, the
  builder succeeds and the search of \<open>ABABBABBBA\<close> returns, raises nothing and yields
  exactly \<open>(1, BABBA)\<close> and \<open>(2, ABBAB)\<close>, in this order.
\<close>

theorem overlap_scenario:
  assumes "distinct al" and "set al = alphabet_set_from_alphabets None [''ABBAB'', ''BABBA'']"
  shows "ac_build_and_search al [''ABBAB'', ''BABBA''] compute ''ABABBABBBA''
           = Inr (Some ([(1, ''BABBA''), (2, ''ABBAB'')], None))"
proof -
  have "set al = {CHR ''A'', CHR ''B''}"
    using assms(2) by (auto simp: alphabet_set_from_alphabets_def)
  then have "al = ''AB'' \<or> al = ''BA''"
    using distinct_two_orders[OF assms(1), of "CHR ''A''" "CHR ''B''"] by simp
  moreover have "ac_build_and_search ''AB'' [''ABBAB'', ''BABBA''] True ''ABABBABBBA''
           = Inr (Some ([(1, ''BABBA''), (2, ''ABBAB'')], None))" by code_simp
  moreover have "ac_build_and_search ''BA'' [''ABBAB'', ''BABBA''] True ''ABABBABBBA''
           = Inr (Some ([(1, ''BABBA''), (2, ''ABBAB'')], None))" by code_simp
  moreover have "ac_build_and_search ''AB'' [''ABBAB'', ''BABBA''] False ''ABABBABBBA''
           = Inr (Some ([(1, ''BABBA''), (2, ''ABBAB'')], None))" by code_simp
  moreover have "ac_build_and_search ''BA'' [''ABBAB'', ''BABBA''] False ''ABABBABBBA''
           = Inr (Some ([(1, ''BABBA''), (2, ''ABBAB'')], None))" by code_simp
  ultimately show ?thesis by (cases compute) auto
qed

theorem overlap_scenario_witness:
  "distinct ''AB'' \<and> set ''AB'' = alphabet_set_from_alphabets None [''ABBAB'', ''BABBA''] \<and>
   ac_build_and_search ''AB'' [''ABBAB'', ''BABBA''] True ''ABABBABBBA''
           = Inr (Some ([(1, ''BABBA''), (2, ''ABBAB'')], None))"
proof -
  have d: "distinct ''AB''" by simp
  have s: "set ''AB'' = alphabet_set_from_alphabets None [''ABBAB'', ''BABBA'']"
    by (auto simp: alphabet_set_from_alphabets_def)
  show ?thesis using d s overlap_scenario[OF d s, of True] by simp
qed

text \<open>
  C9 (the transition query never raises).  For every automaton, state and symbol, the
  body of \<open>DFA.transition\<close> raises nothing, although its subscript can raise \<open>KeyError\<close>,
  and returns what the lookup \<open>transition\<close> gives.  The value returned is \<open>Some t\<close> exactly
  when the transition table holds the target \<open>t\<close> for the state and the symbol, and \<open>None\<close>
  otherwise; after a successful \<open>add_transition\<close> it is the target just added.  On a state
  outside the allocated range, where \<open>is_accepting_state\<close> raises, and on a symbol outside
  the alphabet, the value returned for a well-formed automaton is \<open>None\<close>.
\<close>

theorem transition_never_raises:
  "DFA_transition d s a = Inr (transition d s a) \<and>
   (DFA_transition d s a = Inr (Some t) \<longleftrightarrow>
      (\<exists>row. map_of (transitions d) s = Some row \<and> map_of row a = Some t)) \<and>
   (DFA_transition d s a = Inr None \<longleftrightarrow>
      \<not> (\<exists>row t'. map_of (transitions d) s = Some row \<and> map_of row a = Some t')) \<and>
   (add_transition d s a t ty = (None, d') \<longrightarrow> DFA_transition d' s a = Inr (Some t)) \<and>
   (\<not> in_range d s \<longrightarrow> is_accepting_state d s = Inl (InvalidStateReference s)) \<and>
   (well_formed d \<longrightarrow> \<not> in_range d s \<or> a \<notin> alphabets d \<longrightarrow> DFA_transition d s a = Inr None)"
proof -
  have same: "DFA_transition d0 s0 a0 = Inr (transition d0 s0 a0)" for d0 s0 a0
  proof (cases "map_of (transitions d0) s0")
    case None
    then have "s0 \<notin> fst ` set (transitions d0)" by (simp add: map_of_eq_None_iff)
    then show ?thesis using None by (simp add: DFA_transition_def py_contains_def transition_def)
  next
    case (Some row)
    then have "s0 \<in> fst ` set (transitions d0)"
      using map_of_eq_None_iff[of "transitions d0" s0] by auto
    then show ?thesis
      using Some
      by (simp add: DFA_transition_def py_contains_def py_getitem_def py_get_def transition_def)
  qed
  have some: "transition d s a = Some t \<longleftrightarrow>
      (\<exists>row. map_of (transitions d) s = Some row \<and> map_of row a = Some t)"
    by (cases "map_of (transitions d) s") (simp_all add: transition_def)
  have none: "transition d s a = None \<longleftrightarrow>
      \<not> (\<exists>row t'. map_of (transitions d) s = Some row \<and> map_of row a = Some t')"
    by (cases "map_of (transitions d) s") (simp_all add: transition_def)
  have added: "DFA_transition d' s a = Inr (Some t)" if "add_transition d s a t ty = (None, d')"
    using transition_add_transition[OF that, of s a] same[of d' s a] by simp
  have raises: "is_accepting_state d s = Inl (InvalidStateReference s)" if "\<not> in_range d s"
    using that by (auto simp: is_accepting_state_def in_range_def split: option.splits)
  have outside: "DFA_transition d s a = Inr None"
    if "well_formed d" "\<not> in_range d s \<or> a \<notin> alphabets d"
    using that well_formed_transition[of d s a] same[of d s a]
    by (cases "transition d s a") auto
  show ?thesis
    using same[of d s a] some none added raises outside by simp
qed

theorem transition_never_raises_witness:
  "add_transition example_dfa_no_edge 0 CHR ''a'' 1 SUCCESS = (None, example_dfa_one_edge) \<and>
   well_formed example_dfa_one_edge \<and>
   DFA_transition example_dfa_one_edge 0 CHR ''a'' = Inr (Some 1) \<and>
   DFA_transition example_dfa_no_edge 0 CHR ''a'' = Inr None \<and>
   \<not> in_range example_dfa_one_edge (- 1) \<and>
   is_accepting_state example_dfa_one_edge (- 1) = Inl (InvalidStateReference (- 1)) \<and>
   DFA_transition example_dfa_one_edge (- 1) CHR ''a'' = Inr None \<and>
   \<not> in_range example_dfa_one_edge 2 \<and>
   is_accepting_state example_dfa_one_edge 2 = Inl (InvalidStateReference 2) \<and>
   DFA_transition example_dfa_one_edge 2 CHR ''a'' = Inr None \<and>
   CHR ''b'' \<notin> alphabets example_dfa_one_edge \<and>
   DFA_transition example_dfa_one_edge 0 CHR ''b'' = Inr None"
proof -
  have v0: "example_dfa_no_edge =
      \<lparr> states = Some 1, alphabets = {CHR ''a''}, transitions = [], transition_types = [],
        initial_state = Some 0, accepting_states = {1} \<rparr>"
    by (simp add: example_dfa_no_edge_def add_state_def DFA_init_def truthy_def)
  have add: "add_transition example_dfa_no_edge 0 CHR ''a'' 1 SUCCESS = (None, example_dfa_one_edge)"
    by (simp add: example_dfa_one_edge_def v0 add_transition_def)
  have v1: "example_dfa_one_edge =
      \<lparr> states = Some 1, alphabets = {CHR ''a''}, transitions = [(0, [(CHR ''a'', 1)])],
        transition_types = [(0, [(CHR ''a'', SUCCESS)])],
        initial_state = Some 0, accepting_states = {1} \<rparr>"
    by (simp add: example_dfa_one_edge_def v0 add_transition_def)
  have wf: "well_formed example_dfa_one_edge"
    by (simp add: v1 well_formed_def in_range_def)
  have row0: "\<not> (\<exists>row t'. map_of (transitions example_dfa_no_edge) 0 = Some row \<and>
                 map_of row CHR ''a'' = Some t')"
    by (simp add: v0)
  have low: "\<not> in_range example_dfa_one_edge (- 1)" by (simp add: v1 in_range_def)
  have high: "\<not> in_range example_dfa_one_edge 2" by (simp add: v1 in_range_def)
  have sym: "CHR ''b'' \<notin> alphabets example_dfa_one_edge" by (simp add: v1)
  note edge = transition_never_raises[of example_dfa_no_edge 0 "CHR ''a''" 1 SUCCESS example_dfa_one_edge]
  note below = transition_never_raises[of example_dfa_one_edge "- 1" "CHR ''a''"]
  note above = transition_never_raises[of example_dfa_one_edge 2 "CHR ''a''"]
  note foreign = transition_never_raises[of example_dfa_one_edge 0 "CHR ''b''"]
  have t1: "DFA_transition example_dfa_one_edge 0 CHR ''a'' = Inr (Some 1)"
    using edge[THEN conjunct2, THEN conjunct2, THEN conjunct2, THEN conjunct1] add by simp
  have t0: "DFA_transition example_dfa_no_edge 0 CHR ''a'' = Inr None"
    using edge[THEN conjunct2, THEN conjunct2, THEN conjunct1] row0 by blast
  have t2: "is_accepting_state example_dfa_one_edge (- 1) = Inl (InvalidStateReference (- 1))"
    "DFA_transition example_dfa_one_edge (- 1) CHR ''a'' = Inr None"
    using below[THEN conjunct2, THEN conjunct2, THEN conjunct2, THEN conjunct2, THEN conjunct1,
        rule_format, OF low]
      below[THEN conjunct2, THEN conjunct2, THEN conjunct2, THEN conjunct2, THEN conjunct2,
        rule_format, OF wf disjI1[OF low]]
    by this+
  have t3: "is_accepting_state example_dfa_one_edge 2 = Inl (InvalidStateReference 2)"
    "DFA_transition example_dfa_one_edge 2 CHR ''a'' = Inr None"
    using above[THEN conjunct2, THEN conjunct2, THEN conjunct2, THEN conjunct2, THEN conjunct1,
        rule_format, OF high]
      above[THEN conjunct2, THEN conjunct2, THEN conjunct2, THEN conjunct2, THEN conjunct2,
        rule_format, OF wf disjI1[OF high]]
    by this+
  have t4: "DFA_transition example_dfa_one_edge 0 CHR ''b'' = Inr None"
    using foreign[THEN conjunct2, THEN conjunct2, THEN conjunct2, THEN conjunct2,
        THEN conjunct2, rule_format, OF wf disjI2[OF sym]] .
  show ?thesis using add wf t1 t0 low t2 high t3 sym t4 by (intro conjI)
qed

text \<open>
  C10 (breadth-first traversal needs an edge-bearing root).  The claim holds for every
  automaton whose initial state has no row in the transition table, and so for every
  well-formed automaton whose initial state has no transition at all, such as one made
  with \<open>add_state\<close> and \<open>add_transition\<close>: \<open>bfs_traverse\<close> raises \<open>KeyError\<close>, from
  \<open>self.transitions[self.initial_state]\<close>.  It raises as well when no initial state is set.
  It does not hold when the initial state has an empty row, which \<open>DFA.from_dict\<close> makes
  of \<^verbatim>\<open>"transitions": {"0": {}}\<close>: then \<open>bfs_traverse\<close> yields the empty sequence and raises
  nothing.
\<close>

theorem bfs_traverse_empty_row:
  "from_dict example_dict_empty_row = Inr example_dfa_empty_row \<and>
   initial_state example_dfa_empty_row = Some 0 \<and>
   all_edges example_dfa_empty_row = [] \<and>
   transition example_dfa_empty_row 0 CHR ''a'' = None \<and>
   bfs_traverse example_dfa_empty_row = Inr []"
  by code_simp

theorem bfs_traverse_requires_edges:
  "(initial_state d = None \<longrightarrow> bfs_traverse d = Inl NoInitialState) \<and>
   (initial_state d = Some s \<and> map_of (transitions d) s = None
      \<longrightarrow> bfs_traverse d = Inl KeyError) \<and>
   (well_formed d \<and> initial_state d = Some s \<and> (\<forall>a. transition d s a = None)
      \<longrightarrow> bfs_traverse d = Inl KeyError) \<and>
   (initial_state d = Some s \<and> map_of (transitions d) s = Some []
      \<longrightarrow> bfs_traverse d = Inr [])"
proof (intro conjI impI)
  show "bfs_traverse d = Inl NoInitialState" if "initial_state d = None"
    using that by (simp add: bfs_traverse_def)
  show "bfs_traverse d = Inl KeyError"
    if "initial_state d = Some s \<and> map_of (transitions d) s = None"
    using that by (simp add: bfs_traverse_def)
  show "bfs_traverse d = Inl KeyError"
    if h: "well_formed d \<and> initial_state d = Some s \<and> (\<forall>a. transition d s a = None)"
  proof (cases "map_of (transitions d) s")
    case None
    then show ?thesis using h by (simp add: bfs_traverse_def)
  next
    case (Some row)
    then have "row \<noteq> []" using h unfolding well_formed_def by blast
    then obtain a t rest where "row = (a, t) # rest" by (cases row) auto
    then have "transition d s a = Some t" using Some by (simp add: transition_def)
    then show ?thesis using h by simp
  qed
  show "bfs_traverse d = Inr []"
    if "initial_state d = Some s \<and> map_of (transitions d) s = Some []"
    using that by (simp add: bfs_traverse_def bfs_loop.simps)
qed

theorem bfs_traverse_requires_edges_witness:
  "initial_state (DFA_init {}) = None \<and> bfs_traverse (DFA_init {}) = Inl NoInitialState \<and>
   well_formed example_dfa_no_edge \<and>
   states example_dfa_no_edge = Some 1 \<and>
   initial_state example_dfa_no_edge = Some 0 \<and>
   map_of (transitions example_dfa_no_edge) 0 = None \<and>
   (\<forall>a. transition example_dfa_no_edge 0 a = None) \<and>
   bfs_traverse example_dfa_no_edge = Inl KeyError \<and>
   initial_state example_dfa_empty_row = Some 0 \<and>
   map_of (transitions example_dfa_empty_row) 0 = Some [] \<and>
   bfs_traverse example_dfa_empty_row = Inr []"
proof -
  have a: "initial_state (DFA_init {}) = None" by (simp add: DFA_init_def)
  have v0: "example_dfa_no_edge =
      \<lparr> states = Some 1, alphabets = {CHR ''a''}, transitions = [], transition_types = [],
        initial_state = Some 0, accepting_states = {1} \<rparr>"
    by (simp add: example_dfa_no_edge_def add_state_def DFA_init_def truthy_def)
  have wf: "well_formed example_dfa_no_edge" by (simp add: v0 well_formed_def)
  have st: "states example_dfa_no_edge = Some 1" by (simp add: v0)
  have i: "initial_state example_dfa_no_edge = Some 0" by (simp add: v0)
  have r: "map_of (transitions example_dfa_no_edge) 0 = None" by (simp add: v0)
  have t: "\<forall>a. transition example_dfa_no_edge 0 a = None" by (simp add: v0 transition_def)
  have i': "initial_state example_dfa_empty_row = Some 0" by code_simp
  have r': "map_of (transitions example_dfa_empty_row) 0 = Some []" by code_simp
  have b0: "bfs_traverse (DFA_init {}) = Inl NoInitialState"
    using bfs_traverse_requires_edges[of "DFA_init {}" 0] a by simp
  have b1: "bfs_traverse example_dfa_no_edge = Inl KeyError"
    using bfs_traverse_requires_edges[of example_dfa_no_edge 0] wf i r t by simp
  have b2: "bfs_traverse example_dfa_empty_row = Inr []"
    using bfs_traverse_requires_edges[of example_dfa_empty_row 0] i' r' by simp
  show ?thesis using a b0 wf st i r t b1 i' r' b2 by (intro conjI)
qed

text \<open>
  C6 (a precomputed automaton is complete, so the precomputed search never misses a
  transition).  Whenever either builder returns a matcher with
  \<open>compute_transitions = True\<close>, every allocated state of its automaton has a transition on
  every symbol of the alphabet; and for every text over the alphabet the search returns
  the same matcher and raises nothing at all, in particular not the error of the
  missing-transition branch.
\<close>

theorem precomputed_automaton_complete:
  "(KMPMatcher_init al pat True = Inr m \<longrightarrow>
      alphabets (dfa m) = set al \<and> states (dfa m) = Some (int (length pat)) \<and>
      complete (dfa m) \<and>
      (set s \<subseteq> set al \<longrightarrow> (\<exists>ys. KMPMatcher_search m s = (ys, Returns, m)))) \<and>
   (AhoCorasickMatcher_init al pats True = Inr a \<longrightarrow>
      alphabets (dfa a) = set al \<and> complete (dfa a) \<and>
      (set s \<subseteq> set al \<longrightarrow> (\<exists>ys. AhoCorasickMatcher_search a s = (ys, Returns, a))))"
proof (intro conjI impI)
  assume b: "KMPMatcher_init al pat True = Inr m"
  note r = KMPMatcher_init_result[OF b]
  show "alphabets (dfa m) = set al" "states (dfa m) = Some (int (length pat))"
    "complete (dfa m)"
    using r by simp_all
  assume s: "set s \<subseteq> set al"
  have "in_range (dfa m) 0" using r(3) by (simp add: in_range_def)
  then have "snd (direct_walk (kmp_report (pattern m)) (dfa m) 0 0 s) = Returns"
    using direct_walk_complete[of "dfa m" 0 s "kmp_report (pattern m)" 0] r s
    by (simp add: kmp_report_def)
  then show "\<exists>ys. KMPMatcher_search m s = (ys, Returns, m)"
    using r(4)
    by (cases "direct_walk (kmp_report (pattern m)) (dfa m) 0 0 s")
       (simp add: KMPMatcher_search_def kmp_search_precomputed_walk)
next
  assume b: "AhoCorasickMatcher_init al pats True = Inr a"
  note r = AhoCorasickMatcher_init_result[OF b]
  show "alphabets (dfa a) = set al" "complete (dfa a)" using r by simp_all
  assume s: "set s \<subseteq> set al"
  have "\<exists>y. ac_report (pattern_map a) i t = Inr y" if "in_range (dfa a) t" for i t
    using r(5)[OF that] by (auto simp: ac_report_def pattern_of_def)
  then have "snd (direct_walk (ac_report (pattern_map a)) (dfa a) 0 0 s) = Returns"
    using direct_walk_complete[of "dfa a" 0 s "ac_report (pattern_map a)" 0] r s by simp
  then show "\<exists>ys. AhoCorasickMatcher_search a s = (ys, Returns, a)"
    using r(3)
    by (cases "direct_walk (ac_report (pattern_map a)) (dfa a) 0 0 s")
       (simp add: AhoCorasickMatcher_search_def ac_search_precomputed_walk)
qed

theorem precomputed_automaton_complete_witness:
  "KMPMatcher_init ''AB'' ''AB'' True = Inr (example_kmp True) \<and>
   AhoCorasickMatcher_init ''AB'' [''AB'', ''B''] True = Inr (example_ac True) \<and>
   set ''AABB'' \<subseteq> set ''AB'' \<and>
   complete (dfa (example_kmp True)) \<and> complete (dfa (example_ac True)) \<and>
   KMPMatcher_search (example_kmp True) ''AABB'' = ([(1, ''AB'')], Returns, example_kmp True) \<and>
   AhoCorasickMatcher_search (example_ac True) ''AABB''
     = ([(1, ''AB''), (3, ''B'')], Returns, example_ac True)"
proof -
  have k: "KMPMatcher_init ''AB'' ''AB'' True = Inr (example_kmp True)" by code_simp
  have a: "AhoCorasickMatcher_init ''AB'' [''AB'', ''B''] True = Inr (example_ac True)"
    by code_simp
  have s: "set ''AABB'' \<subseteq> set ''AB''" by simp
  have ks: "observed (KMPMatcher_search (example_kmp True) ''AABB'') = Some ([(1, ''AB'')], None)"
    by code_simp
  have as: "observed (AhoCorasickMatcher_search (example_ac True) ''AABB'')
              = Some ([(1, ''AB''), (3, ''B'')], None)"
    by code_simp
  note kmp = precomputed_automaton_complete[THEN conjunct1, rule_format, OF k]
  note ac = precomputed_automaton_complete[THEN conjunct2, rule_format, OF a]
  have kc: "complete (dfa (example_kmp True))"
    using kmp[of "[]"] by (elim conjE)
  have ac_c: "complete (dfa (example_ac True))"
    using ac[of "[]"] by (elim conjE)
  obtain ys where ys: "KMPMatcher_search (example_kmp True) ''AABB''
                         = (ys, Returns, example_kmp True)"
    using kmp[of "''AABB''"] s by (elim conjE impE exE)
  have "observed (KMPMatcher_search (example_kmp True) ''AABB'') = Some (ys, None)"
    unfolding ys observed_def by simp
  then have ys_eq: "ys = [(1, ''AB'')]" unfolding ks by simp
  obtain zs where zs: "AhoCorasickMatcher_search (example_ac True) ''AABB''
                         = (zs, Returns, example_ac True)"
    using ac[of "''AABB''"] s by (elim conjE impE exE)
  have "observed (AhoCorasickMatcher_search (example_ac True) ''AABB'') = Some (zs, None)"
    unfolding zs observed_def by simp
  then have zs_eq: "zs = [(1, ''AB''), (3, ''B'')]" unfolding as by simp
  show ?thesis
    using k a s kc ac_c ys[unfolded ys_eq] zs[unfolded zs_eq] by (intro conjI)
qed

text \<open>
  C8 (searching twice).  For a matcher returned by either builder in either mode and
  every text: the search of the text on the matcher as a first search of that text left
  it, cached edges included, yields the same matches in the same order and ends in the
  same way (it returns, it raises the same exception, or it hangs), and it leaves the
  matcher as it is.
\<close>

theorem search_twice:
  "(KMPMatcher_init al pat compute = Inr m \<longrightarrow>
      KMPMatcher_search (snd (snd (KMPMatcher_search m s))) s = KMPMatcher_search m s) \<and>
   (AhoCorasickMatcher_init al pats compute = Inr a \<longrightarrow>
      AhoCorasickMatcher_search (snd (snd (AhoCorasickMatcher_search a s))) s
        = AhoCorasickMatcher_search a s)"
proof (intro conjI impI)
  assume b: "KMPMatcher_init al pat compute = Inr m"
  note i = KMPMatcher_init_result[OF b]
  show "KMPMatcher_search (snd (snd (KMPMatcher_search m s))) s = KMPMatcher_search m s"
  proof (cases "compute_transitions m")
    case True
    then have "snd (snd (KMPMatcher_search m s)) = m"
      by (simp add: KMPMatcher_search_def split: prod.splits)
    then show ?thesis by simp
  next
    case False
    obtain ys e d1 where
      w: "lazy_walk (kmp_report (Some pat)) (dfa m) (fail_functions m) 0 0 s = (ys, e, d1)"
      by (cases "lazy_walk (kmp_report (Some pat)) (dfa m) (fail_functions m) 0 0 s") auto
    have first: "KMPMatcher_search m s = (ys, e, m\<lparr>dfa := d1\<rparr>)"
      using False w i(5) by (simp add: KMPMatcher_search_def search_lazy_transition_walk)
    have "lazy_walk (kmp_report (Some pat)) d1 (fail_functions m) 0 0 s = (ys, e, d1)"
      using lazy_walk_again[OF i(1) w] .
    then have "KMPMatcher_search (m\<lparr>dfa := d1\<rparr>) s = (ys, e, m\<lparr>dfa := d1\<rparr>)"
      using False i(5) by (simp add: KMPMatcher_search_def search_lazy_transition_walk)
    then show ?thesis using first by simp
  qed
next
  assume b: "AhoCorasickMatcher_init al pats compute = Inr a"
  note i = AhoCorasickMatcher_init_result[OF b]
  show "AhoCorasickMatcher_search (snd (snd (AhoCorasickMatcher_search a s))) s
          = AhoCorasickMatcher_search a s"
  proof (cases "compute_transitions a")
    case True
    then have "snd (snd (AhoCorasickMatcher_search a s)) = a"
      by (simp add: AhoCorasickMatcher_search_def split: prod.splits)
    then show ?thesis by simp
  next
    case False
    obtain zs e d1 where
      w: "lazy_walk (ac_report (pattern_map a)) (dfa a) (fail_functions a) 0 0 s = (zs, e, d1)"
      by (cases "lazy_walk (ac_report (pattern_map a)) (dfa a) (fail_functions a) 0 0 s") auto
    have first: "AhoCorasickMatcher_search a s = (zs, e, a\<lparr>dfa := d1\<rparr>)"
      using False w by (simp add: AhoCorasickMatcher_search_def ac_search_lazy_walk)
    have "lazy_walk (ac_report (pattern_map a)) d1 (fail_functions a) 0 0 s = (zs, e, d1)"
      using lazy_walk_again[OF i(1) w] .
    then have "AhoCorasickMatcher_search (a\<lparr>dfa := d1\<rparr>) s = (zs, e, a\<lparr>dfa := d1\<rparr>)"
      using False by (simp add: AhoCorasickMatcher_search_def ac_search_lazy_walk)
    then show ?thesis using first by simp
  qed
qed

theorem search_twice_witness:
  "KMPMatcher_init ''AB'' ''AB'' False = Inr (example_kmp False) \<and>
   KMPMatcher_search (example_kmp False) ''AAB'' = ([(1, ''AB'')], Returns, example_kmp_searched) \<and>
   transition (dfa (example_kmp False)) 1 CHR ''A'' = None \<and>
   transition (dfa example_kmp_searched) 1 CHR ''A'' = Some 1 \<and>
   KMPMatcher_search example_kmp_searched ''AAB''
     = ([(1, ''AB'')], Returns, example_kmp_searched) \<and>
   KMPMatcher_init ''AB'' ''AA'' False = Inr example_kmp_aa \<and>
   KMPMatcher_search example_kmp_aa ''BAAB'' = ([(1, ''AA'')], Hangs, example_kmp_aa_searched) \<and>
   transition (dfa example_kmp_aa) 0 CHR ''B'' = None \<and>
   transition (dfa example_kmp_aa_searched) 0 CHR ''B'' = Some 0 \<and>
   KMPMatcher_search example_kmp_aa_searched ''BAAB''
     = ([(1, ''AA'')], Hangs, example_kmp_aa_searched) \<and>
   AhoCorasickMatcher_init ''AB'' [''AB'', ''B''] False = Inr (example_ac False) \<and>
   AhoCorasickMatcher_search (example_ac False) ''AABC''
     = ([(1, ''AB'')], Raises (InvalidSymbol CHR ''C''), example_ac_searched) \<and>
   transition (dfa (example_ac False)) 1 CHR ''A'' = None \<and>
   transition (dfa example_ac_searched) 1 CHR ''A'' = Some 1 \<and>
   AhoCorasickMatcher_search example_ac_searched ''AABC''
     = ([(1, ''AB'')], Raises (InvalidSymbol CHR ''C''), example_ac_searched)"
proof -
  have b: "KMPMatcher_init ''AB'' ''AB'' False = Inr (example_kmp False)" by code_simp
  have r: "KMPMatcher_search (example_kmp False) ''AAB''
             = ([(1, ''AB'')], Returns, example_kmp_searched)" by code_simp
  have t0: "transition (dfa (example_kmp False)) 1 CHR ''A'' = None" by code_simp
  have t1: "transition (dfa example_kmp_searched) 1 CHR ''A'' = Some 1" by code_simp
  have again: "KMPMatcher_search example_kmp_searched ''AAB''
                 = ([(1, ''AB'')], Returns, example_kmp_searched)"
    using search_twice[THEN conjunct1, rule_format, OF b, of "''AAB''"] unfolding r by simp
  have b': "KMPMatcher_init ''AB'' ''AA'' False = Inr example_kmp_aa" by code_simp
  have r': "KMPMatcher_search example_kmp_aa ''BAAB''
              = ([(1, ''AA'')], Hangs, example_kmp_aa_searched)"
    by (rule example_kmp_aa_hangs)
  have t0': "transition (dfa example_kmp_aa) 0 CHR ''B'' = None" by code_simp
  have t1': "transition (dfa example_kmp_aa_searched) 0 CHR ''B'' = Some 0" by code_simp
  have again': "KMPMatcher_search example_kmp_aa_searched ''BAAB''
                  = ([(1, ''AA'')], Hangs, example_kmp_aa_searched)"
    using search_twice[THEN conjunct1, rule_format, OF b', of "''BAAB''"] unfolding r' by simp
  have c: "AhoCorasickMatcher_init ''AB'' [''AB'', ''B''] False = Inr (example_ac False)"
    by code_simp
  have q: "AhoCorasickMatcher_search (example_ac False) ''AABC''
             = ([(1, ''AB'')], Raises (InvalidSymbol CHR ''C''), example_ac_searched)"
    by code_simp
  have u0: "transition (dfa (example_ac False)) 1 CHR ''A'' = None" by code_simp
  have u1: "transition (dfa example_ac_searched) 1 CHR ''A'' = Some 1" by code_simp
  have again'': "AhoCorasickMatcher_search example_ac_searched ''AABC''
                   = ([(1, ''AB'')], Raises (InvalidSymbol CHR ''C''), example_ac_searched)"
    using search_twice[THEN conjunct2, rule_format, OF c, of "''AABC''"] unfolding q by simp
  show ?thesis
    using b r t0 t1 again b' r' t0' t1' again' c q u0 u1 again'' by (intro conjI)
qed

end
